theory Spec2Isabelle
  imports Main "HOL-Library.Word"
begin

unbundle bit_operations_syntax

section \<open>Coordinate codec\<close>

text \<open>
  \<^verbatim>\<open>delta_swap\<close> and \<^verbatim>\<open>interleaveXY\<close> of \<^verbatim>\<open>main.cpp\<close>, on 32-bit words. The
  arguments of \<^verbatim>\<open>interleaveXY\<close> are \<^verbatim>\<open>uint16_t\<close>: a wider argument is cut to its
  low 16 bits at the call.
\<close>

definition delta_swap :: "32 word \<Rightarrow> 32 word \<Rightarrow> nat \<Rightarrow> 32 word" where
  "delta_swap a m shift =
     (let b = (push_bit shift a XOR a) AND m
      in a XOR (b XOR drop_bit shift b))"

definition interleaveXY :: "16 word \<Rightarrow> 16 word \<Rightarrow> 32 word" where
  "interleaveXY x y =
     (let res = push_bit 16 (ucast y) OR ucast x;
          res = delta_swap res 0x00FF0000 8;
          res = delta_swap res 0x0F000F00 4;
          res = delta_swap res 0x30303030 2;
          res = delta_swap res 0x44444444 1
      in res)"

definition MASK_X :: "32 word" where
  "MASK_X = 0x55555555"

definition MASK_Y :: "32 word" where
  "MASK_Y = 0xAAAAAAAA"

section \<open>Cell states\<close>

text \<open>The enum \<^verbatim>\<open>Cell : uint8_t\<close>; the code masks and adds its numeric values.\<close>

definition Dead :: "8 word" where
  "Dead = 0"

definition Alive :: "8 word" where
  "Alive = 1"

definition Dying :: "8 word" where
  "Dying = 3"

definition Birthing :: "8 word" where
  "Birthing = 2"

definition DeadVisited :: "8 word" where
  "DeadVisited = 4"

lemmas Cell_defs = Dead_def Alive_def Dying_def Birthing_def DeadVisited_def

section \<open>The grid\<close>

text \<open>
  Errors are values. \<open>InvalidSize\<close> is the \<^verbatim>\<open>std::invalid_argument\<close> the constructor
  throws, with its message. \<open>OutOfBounds\<close> stands for an access to \<^verbatim>\<open>cells\<close> outside
  the allocated array, which the C++ program does not check: every read and write of
  the model is bounds-checked, so that a run that returns \<open>Inr\<close> made no such access.
\<close>

datatype error = InvalidSize string | OutOfBounds

definition seq :: "error + 'a \<Rightarrow> ('a \<Rightarrow> error + 'b) \<Rightarrow> error + 'b" where
  "seq m k = (case m of Inl e \<Rightarrow> Inl e | Inr a \<Rightarrow> k a)"

text \<open>
  The observation log: \<open>Probe k\<close> is a read of \<^verbatim>\<open>cells[k]\<close> made by a cursor step,
  \<open>OffGrid k\<close> a cursor step that landed on the off-grid key \<open>k\<close> and returned the
  sentinel without reading, \<open>Rule k\<close> a call of \<^verbatim>\<open>updateCell\<close> with the cursor on
  \<open>k\<close>, and \<open>Write k\<close> an assignment to \<^verbatim>\<open>cells[k]\<close> made by \<^verbatim>\<open>updateCell\<close>.
\<close>

datatype event = Probe "64 word" | OffGrid "64 word" | Rule "64 word" | Write "64 word"

text \<open>
  The class \<^verbatim>\<open>GameField\<close>; \<^verbatim>\<open>size_t\<close> is 64 bits wide. The member \<^verbatim>\<open>n\<close> is
  \<open>n_bits\<close> and the member \<^verbatim>\<open>size\<close> is \<open>fsize\<close>. The field \<open>trace\<close> is not
  part of the class: it is the observation log of the run.
\<close>

record GameField =
  n_bits :: "8 word"
  size_x :: "64 word"
  size_y :: "64 word"
  cells :: "8 word list"
  fsize :: "64 word"
  idx :: "64 word"
  trace :: "event list"

definition record_event :: "event \<Rightarrow> GameField \<Rightarrow> GameField" where
  "record_event e f = f\<lparr>trace := trace f @ [e]\<rparr>"

definition cell_at :: "64 word \<Rightarrow> GameField \<Rightarrow> error + 8 word" where
  "cell_at k f =
     (if unat k < length (cells f) then Inr (cells f ! unat k) else Inl OutOfBounds)"

definition set_cell :: "64 word \<Rightarrow> 8 word \<Rightarrow> GameField \<Rightarrow> error + GameField" where
  "set_cell k v f =
     (if unat k < length (cells f) then Inr (f\<lparr>cells := (cells f)[unat k := v]\<rparr>)
      else Inl OutOfBounds)"

text \<open>A counted loop \<^verbatim>\<open>for (i = ...; i < n; ++i)\<close> whose body may fail.\<close>

fun for_each :: "'i list \<Rightarrow> ('i \<Rightarrow> 's \<Rightarrow> error + 's) \<Rightarrow> 's \<Rightarrow> error + 's" where
  "for_each [] body s = Inr s"
| "for_each (i # rest) body s = seq (body i s) (for_each rest body)"

subsection \<open>Construction\<close>

text \<open>
  The constructor's loop: it looks for the lowest set bit of \<^verbatim>\<open>size\<close>, shifting it
  out. \<open>n\<close> stays below 64, so the \<^verbatim>\<open>uint8_t\<close> counter never wraps.
\<close>

function scan_size :: "nat \<Rightarrow> 64 word \<Rightarrow> nat \<times> 64 word" where
  "scan_size n sz =
     (if n < 64
      then (if sz AND 1 \<noteq> 0 then (n, drop_bit 1 sz)
            else scan_size (n + 1) (drop_bit 1 sz))
      else (n, sz))"
  by pat_completeness auto
termination
  by (relation "measure (\<lambda>(n, sz). 64 - n)") auto

declare scan_size.simps [simp del]

definition GameField_new :: "64 word \<Rightarrow> error + GameField" where
  "GameField_new sz =
     (let (n, rest) = scan_size 0 sz
      in if n = 64 \<or> rest \<noteq> 0 then Inl (InvalidSize ''size needs to be power of 2'')
         else if n > 12 then Inl (InvalidSize ''size >4096 not supported'')
         else
           (let len = (2::nat) ^ (2 * n);
                sx = (ucast (interleaveXY (ucast sz) 0) :: 64 word)
            in Inr \<lparr>n_bits = of_nat n, size_x = sx, size_y = push_bit 1 sx,
                    cells = replicate len Dead, fsize = sz, idx = 0, trace = []\<rparr>))"

subsection \<open>Whole-grid operations\<close>

definition clear :: "GameField \<Rightarrow> error + GameField" where
  "clear f =
     (let n = fsize f * fsize f
      in for_each [0..<unat n] (\<lambda>i. set_cell (of_nat i) Dead) f)"

definition setCursor :: "64 word \<Rightarrow> 64 word \<Rightarrow> GameField \<Rightarrow> error + (8 word \<times> GameField)" where
  "setCursor x y f =
     (if x \<ge> fsize f \<or> y \<ge> fsize f then Inr (DeadVisited, f)
      else
        (let f1 = f\<lparr>idx := ucast (interleaveXY (ucast x) (ucast y))\<rparr>
         in seq (cell_at (idx f1) f1) (\<lambda>c. Inr (c, f1))))"

definition toggle :: "GameField \<Rightarrow> error + GameField" where
  "toggle f =
     seq (cell_at (idx f) f)
       (\<lambda>c. set_cell (idx f) (if c = Dead then Alive else Dead) f)"

definition setAlive :: "32 word list \<Rightarrow> GameField \<Rightarrow> error + GameField" where
  "setAlive idxs f =
     (let max_idx = fsize f * fsize f
      in for_each idxs
           (\<lambda>i g. let k = (ucast i :: 64 word)
                  in if k < max_idx then set_cell k Alive g else Inr g) f)"

subsection \<open>Cursor steps\<close>

definition right :: "8 word \<Rightarrow> GameField \<Rightarrow> error + (8 word \<times> GameField)" where
  "right msk f =
     (let y = (ucast (idx f AND ucast MASK_Y) :: 32 word);
          x = (ucast (((idx f OR ucast MASK_Y) + 1) AND ucast MASK_X) :: 32 word);
          f1 = f\<lparr>idx := ucast (y OR x)\<rparr>
      in if ucast x \<ge> size_x f1 \<or> ucast y \<ge> size_y f1
         then Inr (DeadVisited AND msk, record_event (OffGrid (idx f1)) f1)
         else seq (cell_at (idx f1) f1)
                (\<lambda>c. Inr (c AND msk, record_event (Probe (idx f1)) f1)))"

definition left :: "8 word \<Rightarrow> GameField \<Rightarrow> error + (8 word \<times> GameField)" where
  "left msk f =
     (let y = (ucast (idx f AND ucast MASK_Y) :: 32 word);
          x = (ucast (((idx f AND ucast MASK_X) - 1) AND ucast MASK_X) :: 32 word);
          f1 = f\<lparr>idx := ucast (y OR x)\<rparr>
      in if ucast x \<ge> size_x f1 \<or> ucast y \<ge> size_y f1
         then Inr (DeadVisited AND msk, record_event (OffGrid (idx f1)) f1)
         else seq (cell_at (idx f1) f1)
                (\<lambda>c. Inr (c AND msk, record_event (Probe (idx f1)) f1)))"

definition up :: "8 word \<Rightarrow> GameField \<Rightarrow> error + (8 word \<times> GameField)" where
  "up msk f =
     (let x = (ucast (idx f AND ucast MASK_X) :: 32 word);
          y = (ucast (((idx f AND ucast MASK_Y) - 1) AND ucast MASK_Y) :: 32 word);
          f1 = f\<lparr>idx := ucast (x OR y)\<rparr>
      in if ucast y \<ge> size_y f1 \<or> ucast x \<ge> size_x f1
         then Inr (DeadVisited AND msk, record_event (OffGrid (idx f1)) f1)
         else seq (cell_at (idx f1) f1)
                (\<lambda>c. Inr (c AND msk, record_event (Probe (idx f1)) f1)))"

definition down :: "8 word \<Rightarrow> GameField \<Rightarrow> error + (8 word \<times> GameField)" where
  "down msk f =
     (let x = (ucast (idx f AND ucast MASK_X) :: 32 word);
          y = (ucast (((idx f OR ucast MASK_X) + 1) AND ucast MASK_Y) :: 32 word);
          f1 = f\<lparr>idx := ucast (x OR y)\<rparr>
      in if ucast y \<ge> size_y f1 \<or> ucast x \<ge> size_x f1
         then Inr (DeadVisited AND msk, record_event (OffGrid (idx f1)) f1)
         else seq (cell_at (idx f1) f1)
                (\<lambda>c. Inr (c AND msk, record_event (Probe (idx f1)) f1)))"

subsection \<open>Neighbour count and the transition rule\<close>

definition countAliveNeighbors :: "GameField \<Rightarrow> error + (8 word \<times> GameField)" where
  "countAliveNeighbors f =
     (let old_idx = idx f
      in seq (up Alive f) (\<lambda>(c1, f1).
         seq (left Alive f1) (\<lambda>(c2, f2).
         seq (down Alive f2) (\<lambda>(c3, f3).
         seq (down Alive f3) (\<lambda>(c4, f4).
         seq (right Alive f4) (\<lambda>(c5, f5).
         seq (right Alive f5) (\<lambda>(c6, f6).
         seq (up Alive f6) (\<lambda>(c7, f7).
         seq (up Alive f7) (\<lambda>(c8, f8).
           Inr (0 + c1 + c2 + c3 + c4 + c5 + c6 + c7 + c8,
                f8\<lparr>idx := old_idx\<rparr>))))))))))"

definition updateCell :: "GameField \<Rightarrow> error + GameField" where
  "updateCell f =
     seq (countAliveNeighbors (record_event (Rule (idx f)) f)) (\<lambda>(alive_neighbors, f1).
     seq (cell_at (idx f1) f1) (\<lambda>c.
       if c = Alive \<and> (alive_neighbors < 2 \<or> alive_neighbors > 3)
       then set_cell (idx f1) Dying (record_event (Write (idx f1)) f1)
       else if c = Dead
       then set_cell (idx f1) (if alive_neighbors = 3 then Birthing else DeadVisited)
              (record_event (Write (idx f1)) f1)
       else Inr f1))"

section \<open>The generation update\<close>

text \<open>\<^verbatim>\<open>if (field.up(mask) == Dead) field.updateCell();\<close> for any of the four steps.\<close>

definition visit ::
  "(8 word \<Rightarrow> GameField \<Rightarrow> error + (8 word \<times> GameField)) \<Rightarrow> GameField \<Rightarrow> error + GameField" where
  "visit step f =
     seq (step (Alive OR DeadVisited) f)
       (\<lambda>(c, f1). if c = Dead then updateCell f1 else Inr f1)"

text \<open>The body of the first pair of loops, for the array index \<open>i\<close>.\<close>

definition evaluate_cell :: "64 word \<Rightarrow> GameField \<Rightarrow> error + GameField" where
  "evaluate_cell i f =
     seq (cell_at i f) (\<lambda>cell.
       if cell = Alive
       then seq (updateCell (f\<lparr>idx := i\<rparr>)) (\<lambda>f.
            seq (visit up f) (\<lambda>f.
            seq (visit left f) (\<lambda>f.
            seq (visit down f) (\<lambda>f.
            seq (visit down f) (\<lambda>f.
            seq (visit right f) (\<lambda>f.
            seq (visit right f) (\<lambda>f.
            seq (visit up f) (\<lambda>f.
            visit up f))))))))
       else Inr f)"

text \<open>The body of the second pair of loops.\<close>

definition commit_cell :: "64 word \<Rightarrow> GameField \<Rightarrow> error + GameField" where
  "commit_cell i f =
     seq (cell_at i f) (\<lambda>cell.
       if cell = Birthing then set_cell i Alive f
       else if cell = Dying \<or> cell = DeadVisited then set_cell i Dead f
       else Inr f)"

text \<open>
  Two nested loops over \<^verbatim>\<open>y\<close> and \<^verbatim>\<open>x\<close> below \<^verbatim>\<open>field.size\<close>, with the running
  array index \<^verbatim>\<open>idx\<close> carried beside the grid. The bodies do not write
  \<^verbatim>\<open>field.size\<close>, so the bound is the one read before the loop.
\<close>

definition scan_grid ::
  "(64 word \<Rightarrow> GameField \<Rightarrow> error + GameField) \<Rightarrow> GameField \<Rightarrow> error + GameField" where
  "scan_grid body f =
     seq (for_each [0..<unat (fsize f)]
            (\<lambda>y. for_each [0..<unat (fsize f)]
                   (\<lambda>x (i, g). seq (body i g) (\<lambda>g1. Inr (i + 1, g1))))
            (0, f))
       (\<lambda>(i, g). Inr g)"

definition simulationTick :: "GameField \<Rightarrow> error + GameField" where
  "simulationTick f = seq (scan_grid evaluate_cell f) (scan_grid commit_cell)"

section \<open>Snapshots\<close>

text \<open>
  \<^verbatim>\<open>saveFile\<close> and \<^verbatim>\<open>openFile\<close> between the grid and the sequence of 32-bit values
  of the file; the file system is outside the model. \<^verbatim>\<open>openFile\<close> prints the
  constructor's message and returns when the declared size is refused: the grid it
  returns is then the one it was given.
\<close>

definition saveFile :: "GameField \<Rightarrow> error + 32 word list" where
  "saveFile f =
     (let len = (ucast (fsize f * fsize f) :: 32 word)
      in seq (for_each [0..<unat len]
                (\<lambda>i vec. seq (cell_at (of_nat i) f)
                   (\<lambda>c. Inr (if c = Alive then vec @ [of_nat i] else vec)))
                [ucast (fsize f)])
           Inr)"

definition openFile :: "32 word list \<Rightarrow> GameField \<Rightarrow> error + GameField" where
  "openFile idxs f =
     (case idxs of
        [] \<Rightarrow> Inl OutOfBounds
      | first # rest \<Rightarrow>
          (let new_size = (ucast first :: 64 word)
           in if new_size \<noteq> fsize f
              then (case GameField_new new_size of
                      Inl e \<Rightarrow> Inr f
                    | Inr g \<Rightarrow> seq (clear g) (setAlive rest))
              else seq (clear f) (setAlive rest)))"

section \<open>Well-formed grids\<close>

text \<open>What the constructor establishes and no operation changes.\<close>

definition wf :: "GameField \<Rightarrow> bool" where
  "wf f \<longleftrightarrow>
     unat (n_bits f) \<le> 12 \<and>
     fsize f = 2 ^ unat (n_bits f) \<and>
     size_x f = 2 ^ (2 * unat (n_bits f)) \<and>
     size_y f = 2 ^ (2 * unat (n_bits f) + 1) \<and>
     length (cells f) = 2 ^ (2 * unat (n_bits f))"

lemma seq_Inr [simp]: "seq (Inr a) k = k a"
  by (simp add: seq_def)

lemma seq_Inl [simp]: "seq (Inl e) k = Inl e"
  by (simp add: seq_def)

section \<open>The codec, bit by bit\<close>

lemma below_32_cases:
  assumes "i < (32::nat)"
  shows "i \<in> {0,1,2,3,4,5,6,7,8,9,10,11,12,13,14,15,16,17,18,19,20,21,22,23,24,25,26,27,28,29,30,31}"
proof -
  from assms have "i \<in> {0..<32}" by simp
  also have "{0..<32::nat} = {0,1,2,3,4,5,6,7,8,9,10,11,12,13,14,15,16,17,18,19,20,21,22,23,24,25,26,27,28,29,30,31}"
    by (simp add: atLeastLessThan_nat_numeral insert_commute)
  finally show ?thesis .
qed

lemma bit_MASK_X: "bit MASK_X i \<longleftrightarrow> i < 32 \<and> even i"
proof (cases "i < 32")
  case True
  from below_32_cases [OF this] show ?thesis
    unfolding MASK_X_def insert_iff empty_iff
    by (elim disjE) simp_all
next
  case False
  then show ?thesis by (auto dest: bit_imp_le_length)
qed

lemma bit_MASK_Y: "bit MASK_Y i \<longleftrightarrow> i < 32 \<and> odd i"
proof (cases "i < 32")
  case True
  from below_32_cases [OF this] show ?thesis
    unfolding MASK_Y_def insert_iff empty_iff
    by (elim disjE) simp_all
next
  case False
  then show ?thesis by (auto dest: bit_imp_le_length)
qed

lemma bit_delta_swap:
  "bit (delta_swap a m s) i =
     (if bit m i \<and> \<not> bit m (i + s) then s \<le> i \<and> bit a (i - s)
      else if bit m (i + s) \<and> \<not> bit m i then bit a (i + s)
      else if bit m i \<and> bit m (i + s) then ((s \<le> i \<and> bit a (i - s)) \<noteq> (bit a i \<noteq> bit a (i + s)))
      else bit a i)"
  by (auto simp add: delta_swap_def Let_def bit_simps add.commute [of s i] dest: bit_imp_le_length)

lemma bit_interleave_start:
  "bit (push_bit 16 (ucast (y :: 16 word)) OR (ucast (x :: 16 word)) :: 32 word) i =
     ((i < 16 \<and> bit x i) \<or> (16 \<le> i \<and> i < 32 \<and> bit y (i - 16)))"
  by (auto simp add: bit_simps dest: bit_imp_le_length)

lemma bit_interleaveXY_below:
  assumes "i < 32"
  shows "bit (interleaveXY x y) i = (if even i then bit x (i div 2) else bit y (i div 2))"
  using below_32_cases [OF assms]
  unfolding interleaveXY_def Let_def insert_iff empty_iff
  by (elim disjE) (simp_all add: bit_delta_swap bit_interleave_start)

lemma bit_interleaveXY:
  "bit (interleaveXY x y) i \<longleftrightarrow> i < 32 \<and> (if even i then bit x (i div 2) else bit y (i div 2))"
proof (cases "i < 32")
  case True
  then show ?thesis by (simp add: bit_interleaveXY_below)
next
  case False
  then show ?thesis by (auto dest: bit_imp_le_length)
qed

lemma bit_Suc_carry: "bit (Suc n) i \<longleftrightarrow> (bit n i \<noteq> (\<forall>j<i. bit n j))"
proof (induction i arbitrary: n)
  case 0
  show ?case by (simp add: bit_0)
next
  case (Suc i)
  show ?case
  proof (cases "even n")
    case True
    then have "Suc n div 2 = n div 2" by simp
    moreover from True have "\<not> (\<forall>j<Suc i. bit n j)"
      by (auto simp: bit_0 intro!: exI [of _ 0])
    ultimately show ?thesis by (simp add: bit_Suc)
  next
    case False
    then have "Suc n div 2 = Suc (n div 2)" by simp
    moreover from False have "(\<forall>j<Suc i. bit n j) \<longleftrightarrow> (\<forall>j<i. bit (n div 2) j)"
      by (simp add: All_less_Suc2 bit_0 bit_Suc)
    ultimately show ?thesis using Suc.IH [of "n div 2"] by (simp add: bit_Suc)
  qed
qed

lemma bit_word_inc:
  "bit (w + 1) i \<longleftrightarrow> i < LENGTH('a) \<and> (bit w i \<noteq> (\<forall>j<i. bit w j))"
  for w :: "'a::len word"
proof (cases "i < LENGTH('a)")
  case True
  have "bit (w + 1) i \<longleftrightarrow> bit (unat (w + 1)) i"
    by (simp add: bit_unsigned_iff)
  also have "unat (w + 1) = take_bit LENGTH('a) (Suc (unat w))"
    by (simp add: unat_word_ariths take_bit_eq_mod)
  also have "bit \<dots> i \<longleftrightarrow> bit (Suc (unat w)) i"
    using True by (simp add: bit_take_bit_iff)
  also have "\<dots> \<longleftrightarrow> (bit (unat w) i \<noteq> (\<forall>j<i. bit (unat w) j))"
    by (rule bit_Suc_carry)
  also have "\<dots> \<longleftrightarrow> (bit w i \<noteq> (\<forall>j<i. bit w j))"
    by (simp add: bit_unsigned_iff)
  finally show ?thesis using True by simp
next
  case False
  then show ?thesis by (auto dest: bit_imp_le_length)
qed

lemma bit_word_dec:
  "bit (w - 1) i \<longleftrightarrow> i < LENGTH('a) \<and> (bit w i \<noteq> (\<forall>j<i. \<not> bit w j))"
  for w :: "'a::len word"
proof -
  have "w - 1 = NOT (NOT w + 1)"
    by (simp add: not_eq_complement)
  then have "bit (w - 1) i \<longleftrightarrow> i < LENGTH('a) \<and> \<not> bit (NOT w + 1) i"
    by (simp add: bit_not_iff)
  also have "\<dots> \<longleftrightarrow> i < LENGTH('a) \<and> \<not> (\<not> bit w i \<noteq> (\<forall>j<i. \<not> bit w j))"
    by (auto simp add: bit_word_inc bit_not_iff)
  finally show ?thesis by auto
qed

text \<open>Decoding a key: proof devices, the program never decodes.\<close>

definition decodeX :: "32 word \<Rightarrow> 16 word" where
  "decodeX k = horner_sum of_bool 2 (map (\<lambda>i. bit k (2 * i)) [0..<16])"

definition decodeY :: "32 word \<Rightarrow> 16 word" where
  "decodeY k = horner_sum of_bool 2 (map (\<lambda>i. bit k (2 * i + 1)) [0..<16])"

lemma bit_decodeX: "bit (decodeX k) m \<longleftrightarrow> m < 16 \<and> bit k (2 * m)"
  by (auto simp add: decodeX_def bit_horner_sum_bit_word_iff)

lemma bit_decodeY: "bit (decodeY k) m \<longleftrightarrow> m < 16 \<and> bit k (Suc (2 * m))"
  by (auto simp add: decodeY_def bit_horner_sum_bit_word_iff)

lemma decodeX_interleaveXY [simp]: "decodeX (interleaveXY x y) = x"
  by (rule bit_eqI) (auto simp add: bit_decodeX bit_interleaveXY dest: bit_imp_le_length)

lemma decodeY_interleaveXY [simp]: "decodeY (interleaveXY x y) = y"
  by (rule bit_eqI) (auto simp add: bit_decodeY bit_interleaveXY dest: bit_imp_le_length)

lemma interleaveXY_decode [simp]: "interleaveXY (decodeX k) (decodeY k) = k"
proof (rule bit_eqI)
  fix i
  show "bit (interleaveXY (decodeX k) (decodeY k)) i = bit k i"
  proof (cases "even i")
    case True
    then show ?thesis
      by (auto simp add: bit_interleaveXY bit_decodeX dest: bit_imp_le_length)
  next
    case False
    then have "Suc (2 * (i div 2)) = i" by presburger
    with False show ?thesis
      by (auto simp add: bit_interleaveXY bit_decodeY dest: bit_imp_le_length)
  qed
qed

lemma key_eqI: "decodeX k = decodeX k' \<Longrightarrow> decodeY k = decodeY k' \<Longrightarrow> k = k'"
  by (metis interleaveXY_decode)

subsection \<open>Steps on keys\<close>

text \<open>The key a cursor step computes, on the low 32 bits of \<^verbatim>\<open>idx\<close>.\<close>

definition key_right :: "32 word \<Rightarrow> 32 word" where
  "key_right k = (k AND MASK_Y) OR (((k OR MASK_Y) + 1) AND MASK_X)"

definition key_left :: "32 word \<Rightarrow> 32 word" where
  "key_left k = (k AND MASK_Y) OR (((k AND MASK_X) - 1) AND MASK_X)"

definition key_up :: "32 word \<Rightarrow> 32 word" where
  "key_up k = (k AND MASK_X) OR (((k AND MASK_Y) - 1) AND MASK_Y)"

definition key_down :: "32 word \<Rightarrow> 32 word" where
  "key_down k = (k AND MASK_X) OR (((k OR MASK_X) + 1) AND MASK_Y)"

lemma all_below_even: "(\<forall>j<2 * (m::nat). odd j \<or> P j) \<longleftrightarrow> (\<forall>j<m. P (2 * j))"
proof
  assume h: "\<forall>j<2 * m. odd j \<or> P j"
  show "\<forall>j<m. P (2 * j)"
  proof (intro allI impI)
    fix j assume "j < m"
    then have "2 * j < 2 * m" by simp
    with h have "odd (2 * j) \<or> P (2 * j)" by blast
    then show "P (2 * j)" by simp
  qed
next
  assume h: "\<forall>j<m. P (2 * j)"
  show "\<forall>j<2 * m. odd j \<or> P j"
  proof (intro allI impI)
    fix j assume lt: "j < 2 * m"
    show "odd j \<or> P j"
    proof (cases "even j")
      case True
      then obtain c where c: "j = 2 * c" by (elim evenE)
      with lt have "c < m" by simp
      with h c show ?thesis by simp
    next
      case False
      then show ?thesis by simp
    qed
  qed
qed

lemma all_below_odd: "(\<forall>j<Suc (2 * (m::nat)). even j \<or> P j) \<longleftrightarrow> (\<forall>j<m. P (Suc (2 * j)))"
proof
  assume h: "\<forall>j<Suc (2 * m). even j \<or> P j"
  show "\<forall>j<m. P (Suc (2 * j))"
  proof (intro allI impI)
    fix j assume "j < m"
    then have "Suc (2 * j) < Suc (2 * m)" by simp
    with h have "even (Suc (2 * j)) \<or> P (Suc (2 * j))" by blast
    then show "P (Suc (2 * j))" by simp
  qed
next
  assume h: "\<forall>j<m. P (Suc (2 * j))"
  show "\<forall>j<Suc (2 * m). even j \<or> P j"
  proof (intro allI impI)
    fix j assume lt: "j < Suc (2 * m)"
    show "even j \<or> P j"
    proof (cases "odd j")
      case True
      then obtain c where c: "j = Suc (2 * c)" by (elim oddE) simp
      with lt have "c < m" by simp
      with h c show ?thesis by simp
    next
      case False
      then show ?thesis by simp
    qed
  qed
qed

lemma bit_key_right_even:
  assumes "m < 16"
  shows "bit (key_right k) (2 * m) \<longleftrightarrow> (bit k (2 * m) \<noteq> (\<forall>j<m. bit k (2 * j)))"
proof -
  have "(\<forall>j<2 * m. bit k j \<or> bit MASK_Y j) \<longleftrightarrow> (\<forall>j<2 * m. odd j \<or> bit k j)"
    using assms by (auto simp add: bit_MASK_Y)
  also have "\<dots> \<longleftrightarrow> (\<forall>j<m. bit k (2 * j))"
    by (rule all_below_even)
  finally show ?thesis
    using assms
    by (simp add: key_right_def bit_and_iff bit_or_iff bit_MASK_X bit_MASK_Y bit_word_inc)
qed

lemma bit_key_right_odd: "bit (key_right k) (Suc (2 * m)) \<longleftrightarrow> bit k (Suc (2 * m))"
  by (auto simp add: key_right_def bit_and_iff bit_or_iff bit_MASK_X bit_MASK_Y
      dest: bit_imp_le_length)

lemma bit_key_left_even:
  assumes "m < 16"
  shows "bit (key_left k) (2 * m) \<longleftrightarrow> (bit k (2 * m) \<noteq> (\<forall>j<m. \<not> bit k (2 * j)))"
proof -
  have "(\<forall>j<2 * m. \<not> (bit k j \<and> bit MASK_X j)) \<longleftrightarrow> (\<forall>j<2 * m. odd j \<or> \<not> bit k j)"
    using assms by (auto simp add: bit_MASK_X)
  also have "\<dots> \<longleftrightarrow> (\<forall>j<m. \<not> bit k (2 * j))"
    by (rule all_below_even)
  finally show ?thesis
    using assms
    by (simp add: key_left_def bit_and_iff bit_or_iff bit_MASK_X bit_MASK_Y bit_word_dec)
qed

lemma bit_key_left_odd: "bit (key_left k) (Suc (2 * m)) \<longleftrightarrow> bit k (Suc (2 * m))"
  by (auto simp add: key_left_def bit_and_iff bit_or_iff bit_MASK_X bit_MASK_Y
      dest: bit_imp_le_length)

lemma bit_key_down_odd:
  assumes "m < 16"
  shows "bit (key_down k) (Suc (2 * m)) \<longleftrightarrow> (bit k (Suc (2 * m)) \<noteq> (\<forall>j<m. bit k (Suc (2 * j))))"
proof -
  have "(\<forall>j<Suc (2 * m). bit k j \<or> bit MASK_X j) \<longleftrightarrow> (\<forall>j<Suc (2 * m). even j \<or> bit k j)"
    using assms by (auto simp add: bit_MASK_X)
  also have "\<dots> \<longleftrightarrow> (\<forall>j<m. bit k (Suc (2 * j)))"
    by (rule all_below_odd)
  finally show ?thesis
    using assms
    by (simp add: key_down_def bit_and_iff bit_or_iff bit_MASK_X bit_MASK_Y bit_word_inc)
qed

lemma bit_key_down_even: "bit (key_down k) (2 * m) \<longleftrightarrow> bit k (2 * m)"
  by (auto simp add: key_down_def bit_and_iff bit_or_iff bit_MASK_X bit_MASK_Y
      dest: bit_imp_le_length)

lemma bit_key_up_odd:
  assumes "m < 16"
  shows "bit (key_up k) (Suc (2 * m)) \<longleftrightarrow> (bit k (Suc (2 * m)) \<noteq> (\<forall>j<m. \<not> bit k (Suc (2 * j))))"
proof -
  have "(\<forall>j<Suc (2 * m). \<not> (bit k j \<and> bit MASK_Y j)) \<longleftrightarrow> (\<forall>j<Suc (2 * m). even j \<or> \<not> bit k j)"
    using assms by (auto simp add: bit_MASK_Y)
  also have "\<dots> \<longleftrightarrow> (\<forall>j<m. \<not> bit k (Suc (2 * j)))"
    by (rule all_below_odd)
  finally show ?thesis
    using assms
    by (simp add: key_up_def bit_and_iff bit_or_iff bit_MASK_X bit_MASK_Y bit_word_dec)
qed

lemma bit_key_up_even: "bit (key_up k) (2 * m) \<longleftrightarrow> bit k (2 * m)"
  by (auto simp add: key_up_def bit_and_iff bit_or_iff bit_MASK_X bit_MASK_Y
      dest: bit_imp_le_length)

lemma decodeX_key_right [simp]: "decodeX (key_right k) = decodeX k + 1"
  by (rule bit_eqI) (auto simp add: bit_decodeX bit_key_right_even bit_word_inc)

lemma decodeY_key_right [simp]: "decodeY (key_right k) = decodeY k"
  by (rule bit_eqI) (simp add: bit_decodeY bit_key_right_odd)

lemma decodeX_key_left [simp]: "decodeX (key_left k) = decodeX k - 1"
  by (rule bit_eqI) (auto simp add: bit_decodeX bit_key_left_even bit_word_dec)

lemma decodeY_key_left [simp]: "decodeY (key_left k) = decodeY k"
  by (rule bit_eqI) (simp add: bit_decodeY bit_key_left_odd)

lemma decodeY_key_down [simp]: "decodeY (key_down k) = decodeY k + 1"
  by (rule bit_eqI) (auto simp add: bit_decodeY bit_key_down_odd bit_word_inc)

lemma decodeX_key_down [simp]: "decodeX (key_down k) = decodeX k"
  by (rule bit_eqI) (simp add: bit_decodeX bit_key_down_even)

lemma decodeY_key_up [simp]: "decodeY (key_up k) = decodeY k - 1"
  by (rule bit_eqI) (auto simp add: bit_decodeY bit_key_up_odd bit_word_dec)

lemma decodeX_key_up [simp]: "decodeX (key_up k) = decodeX k"
  by (rule bit_eqI) (simp add: bit_decodeX bit_key_up_even)

subsection \<open>Width changes and bounds\<close>

lemma ucast_down_inc: "(ucast (a + 1 :: 64 word) :: 32 word) = ucast a + 1"
  by (rule bit_eqI) (auto simp add: bit_ucast_iff bit_word_inc)

lemma ucast_down_dec: "(ucast (a - 1 :: 64 word) :: 32 word) = ucast a - 1"
  by (rule bit_eqI) (auto simp add: bit_ucast_iff bit_word_dec)

lemma ucast_down_and: "(ucast (a AND b :: 64 word) :: 32 word) = ucast a AND ucast b"
  by (rule bit_eqI) (auto simp add: bit_ucast_iff bit_and_iff)

lemma ucast_down_or: "(ucast (a OR b :: 64 word) :: 32 word) = ucast a OR ucast b"
  by (rule bit_eqI) (auto simp add: bit_ucast_iff bit_or_iff)

lemma ucast_up_down: "(ucast (ucast (m :: 32 word) :: 64 word) :: 32 word) = m"
  by (rule bit_eqI) (auto simp add: bit_ucast_iff dest: bit_imp_le_length)

lemma word_less_pow2_bits:
  fixes w :: "'a::len word"
  assumes "n < LENGTH('a)"
  shows "w < 2 ^ n \<longleftrightarrow> (\<forall>i\<ge>n. \<not> bit w i)"
proof -
  have "w < 2 ^ n \<longleftrightarrow> w AND mask n = w"
    using assms by (simp add: mask_eq_iff_w2p word_size)
  also have "\<dots> \<longleftrightarrow> (\<forall>i\<ge>n. \<not> bit w i)"
  proof
    assume eq: "w AND mask n = w"
    show "\<forall>i\<ge>n. \<not> bit w i"
    proof (intro allI impI notI)
      fix i assume "n \<le> i" "bit w i"
      then have "bit (w AND mask n) i" using eq by simp
      with \<open>n \<le> i\<close> show False by (simp add: bit_and_iff bit_mask_iff)
    qed
  next
    assume h: "\<forall>i\<ge>n. \<not> bit w i"
    show "w AND mask n = w"
    proof (rule bit_eqI)
      fix i
      from h have "bit w i \<Longrightarrow> i < n" by (meson not_less)
      then show "bit (w AND mask n) i = bit w i"
        by (auto simp add: bit_and_iff bit_mask_iff dest: bit_imp_le_length)
    qed
  qed
  finally show ?thesis .
qed

lemma masked_x_less:
  assumes "n \<le> 12"
  shows "k AND MASK_X < 2 ^ (2 * n) \<longleftrightarrow> decodeX k < 2 ^ n"
proof -
  have "k AND MASK_X < 2 ^ (2 * n) \<longleftrightarrow> (\<forall>i\<ge>2 * n. \<not> bit (k AND MASK_X) i)"
    using assms by (intro word_less_pow2_bits) simp
  also have "\<dots> \<longleftrightarrow> (\<forall>m\<ge>n. \<not> bit (decodeX k) m)"
  proof
    assume h: "\<forall>i\<ge>2 * n. \<not> bit (k AND MASK_X) i"
    show "\<forall>m\<ge>n. \<not> bit (decodeX k) m"
    proof (intro allI impI notI)
      fix m assume "n \<le> m" "bit (decodeX k) m"
      then have "2 * n \<le> 2 * m" "bit (k AND MASK_X) (2 * m)"
        by (auto simp add: bit_decodeX bit_and_iff bit_MASK_X)
      with h show False by blast
    qed
  next
    assume h: "\<forall>m\<ge>n. \<not> bit (decodeX k) m"
    show "\<forall>i\<ge>2 * n. \<not> bit (k AND MASK_X) i"
    proof (intro allI impI notI)
      fix i assume "2 * n \<le> i" "bit (k AND MASK_X) i"
      then have "n \<le> i div 2" "i div 2 < 16" "bit k (2 * (i div 2))"
        by (auto simp add: bit_and_iff bit_MASK_X)
      then have "bit (decodeX k) (i div 2)" by (simp add: bit_decodeX)
      with h \<open>n \<le> i div 2\<close> show False by blast
    qed
  qed
  also have "\<dots> \<longleftrightarrow> decodeX k < 2 ^ n"
    using assms by (intro word_less_pow2_bits [symmetric]) simp
  finally show ?thesis .
qed

lemma masked_y_less:
  assumes "n \<le> 12"
  shows "k AND MASK_Y < 2 ^ (2 * n + 1) \<longleftrightarrow> decodeY k < 2 ^ n"
proof -
  have "k AND MASK_Y < 2 ^ (2 * n + 1) \<longleftrightarrow> (\<forall>i\<ge>2 * n + 1. \<not> bit (k AND MASK_Y) i)"
    using assms by (intro word_less_pow2_bits) simp
  also have "\<dots> \<longleftrightarrow> (\<forall>m\<ge>n. \<not> bit (decodeY k) m)"
  proof
    assume h: "\<forall>i\<ge>2 * n + 1. \<not> bit (k AND MASK_Y) i"
    show "\<forall>m\<ge>n. \<not> bit (decodeY k) m"
    proof (intro allI impI notI)
      fix m assume "n \<le> m" "bit (decodeY k) m"
      then have "2 * n + 1 \<le> Suc (2 * m)" "bit (k AND MASK_Y) (Suc (2 * m))"
        by (auto simp add: bit_decodeY bit_and_iff bit_MASK_Y)
      with h show False by blast
    qed
  next
    assume h: "\<forall>m\<ge>n. \<not> bit (decodeY k) m"
    show "\<forall>i\<ge>2 * n + 1. \<not> bit (k AND MASK_Y) i"
    proof (intro allI impI notI)
      fix i assume "2 * n + 1 \<le> i" "bit (k AND MASK_Y) i"
      then have *: "odd i" "i < 32" "bit k i"
        by (auto simp add: bit_and_iff bit_MASK_Y)
      then have "Suc (2 * (i div 2)) = i" by presburger
      with * \<open>2 * n + 1 \<le> i\<close> have "n \<le> i div 2" "i div 2 < 16" "bit k (Suc (2 * (i div 2)))"
        by auto
      then have "bit (decodeY k) (i div 2)" by (simp add: bit_decodeY)
      with h \<open>n \<le> i div 2\<close> show False by blast
    qed
  qed
  also have "\<dots> \<longleftrightarrow> decodeY k < 2 ^ n"
    using assms by (intro word_less_pow2_bits [symmetric]) simp
  finally show ?thesis .
qed

lemma key_less:
  assumes "n \<le> 12"
  shows "k < 2 ^ (2 * n) \<longleftrightarrow> decodeX k < 2 ^ n \<and> decodeY k < 2 ^ n"
proof -
  have "k < 2 ^ (2 * n) \<longleftrightarrow> (\<forall>i\<ge>2 * n. \<not> bit k i)"
    using assms by (intro word_less_pow2_bits) simp
  also have "\<dots> \<longleftrightarrow> (\<forall>m\<ge>n. \<not> bit (decodeX k) m) \<and> (\<forall>m\<ge>n. \<not> bit (decodeY k) m)"
  proof
    assume h: "\<forall>i\<ge>2 * n. \<not> bit k i"
    have "\<not> bit (decodeX k) m" if "n \<le> m" for m
      using h that by (auto simp add: bit_decodeX)
    moreover have "\<not> bit (decodeY k) m" if "n \<le> m" for m
    proof -
      from that have "2 * n \<le> Suc (2 * m)" by simp
      with h show ?thesis by (auto simp add: bit_decodeY)
    qed
    ultimately show "(\<forall>m\<ge>n. \<not> bit (decodeX k) m) \<and> (\<forall>m\<ge>n. \<not> bit (decodeY k) m)"
      by blast
  next
    assume h: "(\<forall>m\<ge>n. \<not> bit (decodeX k) m) \<and> (\<forall>m\<ge>n. \<not> bit (decodeY k) m)"
    show "\<forall>i\<ge>2 * n. \<not> bit k i"
    proof (intro allI impI notI)
      fix i assume i: "2 * n \<le> i" "bit k i"
      then have lt: "i < 32" by (auto dest: bit_imp_le_length)
      show False
      proof (cases "even i")
        case True
        with i lt have "n \<le> i div 2" "i div 2 < 16" "bit k (2 * (i div 2))" by auto
        then have "bit (decodeX k) (i div 2)" by (simp add: bit_decodeX)
        with h \<open>n \<le> i div 2\<close> show False by blast
      next
        case False
        then have "Suc (2 * (i div 2)) = i" by presburger
        with i lt False have "n \<le> i div 2" "i div 2 < 16" "bit k (Suc (2 * (i div 2)))"
          by auto
        then have "bit (decodeY k) (i div 2)" by (simp add: bit_decodeY)
        with h \<open>n \<le> i div 2\<close> show False by blast
      qed
    qed
  qed
  also have "\<dots> \<longleftrightarrow> decodeX k < 2 ^ n \<and> decodeY k < 2 ^ n"
    using assms word_less_pow2_bits [of n "decodeX k"] word_less_pow2_bits [of n "decodeY k"]
    by simp
  finally show ?thesis .
qed

section \<open>Cursor steps on a well-formed grid\<close>

definition key :: "GameField \<Rightarrow> 32 word" where
  "key f = ucast (idx f)"

text \<open>The test every step makes after it has moved the cursor to the key \<open>k\<close>.\<close>

definition off_grid :: "GameField \<Rightarrow> 32 word \<Rightarrow> bool" where
  "off_grid f k \<longleftrightarrow>
     ucast (k AND MASK_X) \<ge> size_x f \<or> ucast (k AND MASK_Y) \<ge> size_y f"

definition probe :: "GameField \<Rightarrow> 32 word \<Rightarrow> 8 word" where
  "probe f k = (if off_grid f k then DeadVisited else cells f ! unat k)"

definition probe_event :: "GameField \<Rightarrow> 32 word \<Rightarrow> event" where
  "probe_event f k = (if off_grid f k then OffGrid (ucast k) else Probe (ucast k))"

definition landing :: "8 word \<Rightarrow> 32 word \<Rightarrow> GameField \<Rightarrow> 8 word \<times> GameField" where
  "landing msk k f =
     (probe f k AND msk, record_event (probe_event f k) (f\<lparr>idx := ucast k\<rparr>))"

lemma masks_disjoint: "MASK_X AND MASK_Y = 0"
  by (simp add: MASK_X_def MASK_Y_def)

lemma key_right_parts:
  "key_right k AND MASK_X = ((k OR MASK_Y) + 1) AND MASK_X"
  "key_right k AND MASK_Y = k AND MASK_Y"
  by (rule bit_eqI; auto simp add: key_right_def bit_and_iff bit_or_iff bit_MASK_X bit_MASK_Y)+

lemma key_left_parts:
  "key_left k AND MASK_X = ((k AND MASK_X) - 1) AND MASK_X"
  "key_left k AND MASK_Y = k AND MASK_Y"
  by (rule bit_eqI; auto simp add: key_left_def bit_and_iff bit_or_iff bit_MASK_X bit_MASK_Y)+

lemma key_up_parts:
  "key_up k AND MASK_Y = ((k AND MASK_Y) - 1) AND MASK_Y"
  "key_up k AND MASK_X = k AND MASK_X"
  by (rule bit_eqI; auto simp add: key_up_def bit_and_iff bit_or_iff bit_MASK_X bit_MASK_Y)+

lemma key_down_parts:
  "key_down k AND MASK_Y = ((k OR MASK_X) + 1) AND MASK_Y"
  "key_down k AND MASK_X = k AND MASK_X"
  by (rule bit_eqI; auto simp add: key_down_def bit_and_iff bit_or_iff bit_MASK_X bit_MASK_Y)+

lemma unat_ucast_up [simp]: "unat (ucast (k :: 32 word) :: 64 word) = unat k"
proof -
  have "unat k < 2 ^ 32" using unsigned_less [of k] by simp
  then have "unat k < 2 ^ 64" by simp
  then show ?thesis
    by (simp add: unsigned_ucast_eq take_bit_nat_eq_self)
qed

lemma unat_pow2:
  assumes "m < LENGTH('a::len)"
  shows "unat (2 ^ m :: 'a word) = 2 ^ m"
  by (rule bit_eqI) (use assms in \<open>auto simp add: bit_unsigned_iff bit_exp_iff\<close>)

lemma pow2_le_ucast:
  assumes "m < 32"
  shows "(2 ^ m :: 64 word) \<le> ucast (x :: 32 word) \<longleftrightarrow> 2 ^ m \<le> x"
proof -
  have "unat (2 ^ m :: 64 word) = 2 ^ m" "unat (2 ^ m :: 32 word) = 2 ^ m"
    using assms by (simp_all add: unat_pow2)
  then show ?thesis by (simp add: word_le_nat_alt)
qed

lemma off_grid_iff:
  assumes "wf f"
  shows "off_grid f k \<longleftrightarrow>
    \<not> (decodeX k < 2 ^ unat (n_bits f) \<and> decodeY k < 2 ^ unat (n_bits f))"
proof -
  let ?n = "unat (n_bits f)"
  from assms have n: "?n \<le> 12" and sx: "size_x f = 2 ^ (2 * ?n)"
    and sy: "size_y f = 2 ^ (2 * ?n + 1)"
    by (simp_all add: wf_def)
  have "2 * ?n < 32" "2 * ?n + 1 < 32" using n by simp_all
  then have "off_grid f k \<longleftrightarrow> 2 ^ (2 * ?n) \<le> k AND MASK_X \<or> 2 ^ (2 * ?n + 1) \<le> k AND MASK_Y"
    unfolding off_grid_def sx sy by (simp only: pow2_le_ucast)
  also have "\<dots> \<longleftrightarrow> \<not> (k AND MASK_X < 2 ^ (2 * ?n) \<and> k AND MASK_Y < 2 ^ (2 * ?n + 1))"
    by (auto simp add: not_less)
  finally show ?thesis
    using n by (simp only: masked_x_less masked_y_less)
qed

lemma on_grid_iff_unat:
  assumes "wf f"
  shows "\<not> off_grid f k \<longleftrightarrow> unat k < length (cells f)"
proof -
  let ?n = "unat (n_bits f)"
  from assms have n: "?n \<le> 12" and len: "length (cells f) = 2 ^ (2 * ?n)"
    by (simp_all add: wf_def)
  have "unat (2 ^ (2 * ?n) :: 32 word) = 2 ^ (2 * ?n)"
    using n by (simp add: unat_pow2)
  then have "unat k < length (cells f) \<longleftrightarrow> k < 2 ^ (2 * ?n)"
    by (simp add: len word_less_nat_alt)
  then show ?thesis
    using n by (simp add: off_grid_iff [OF assms] key_less)
qed

lemma key_part_y_64: "(ucast (i AND ucast MASK_Y :: 64 word) :: 32 word) = ucast i AND MASK_Y"
  by (simp add: ucast_down_and ucast_up_down)

lemma key_part_x_64: "(ucast (i AND ucast MASK_X :: 64 word) :: 32 word) = ucast i AND MASK_X"
  by (simp add: ucast_down_and ucast_up_down)

lemma key_right_64:
  "(ucast (((i OR ucast MASK_Y) + 1) AND ucast MASK_X :: 64 word) :: 32 word)
     = ((ucast i OR MASK_Y) + 1) AND MASK_X"
  by (simp add: ucast_down_and ucast_down_or ucast_down_inc ucast_up_down)

lemma key_down_64:
  "(ucast (((i OR ucast MASK_X) + 1) AND ucast MASK_Y :: 64 word) :: 32 word)
     = ((ucast i OR MASK_X) + 1) AND MASK_Y"
  by (simp add: ucast_down_and ucast_down_or ucast_down_inc ucast_up_down)

lemma key_left_64:
  "(ucast (((i AND ucast MASK_X) - 1) AND ucast MASK_X :: 64 word) :: 32 word)
     = ((ucast i AND MASK_X) - 1) AND MASK_X"
  by (simp add: ucast_down_and ucast_down_dec ucast_up_down)

lemma key_up_64:
  "(ucast (((i AND ucast MASK_Y) - 1) AND ucast MASK_Y :: 64 word) :: 32 word)
     = ((ucast i AND MASK_Y) - 1) AND MASK_Y"
  by (simp add: ucast_down_and ucast_down_dec ucast_up_down)

lemma landed_eq:
  assumes "wf f"
  shows "(if ucast (k AND MASK_X) \<ge> size_x f \<or> ucast (k AND MASK_Y) \<ge> size_y f
          then Inr (DeadVisited AND msk,
                 record_event (OffGrid (ucast k)) (f\<lparr>idx := ucast k\<rparr>))
          else seq (cell_at (ucast k) (f\<lparr>idx := ucast k\<rparr>))
                 (\<lambda>c. Inr (c AND msk,
                    record_event (Probe (ucast k)) (f\<lparr>idx := ucast k\<rparr>))))
         = Inr (landing msk k f)"
proof (cases "off_grid f k")
  case True
  then show ?thesis
    by (simp add: landing_def probe_def probe_event_def off_grid_def)
next
  case False
  then have "unat k < length (cells f)"
    using on_grid_iff_unat [OF assms] by simp
  with False show ?thesis
    by (simp add: landing_def probe_def probe_event_def off_grid_def cell_at_def)
qed

lemma right_eq:
  assumes "wf f"
  shows "right msk f = Inr (landing msk (key_right (key f)) f)"
proof -
  have "right msk f =
    (let y = key f AND MASK_Y; x = ((key f OR MASK_Y) + 1) AND MASK_X;
         f1 = f\<lparr>idx := ucast (y OR x)\<rparr>
     in if ucast x \<ge> size_x f1 \<or> ucast y \<ge> size_y f1
        then Inr (DeadVisited AND msk, record_event (OffGrid (idx f1)) f1)
        else seq (cell_at (idx f1) f1)
               (\<lambda>c. Inr (c AND msk, record_event (Probe (idx f1)) f1)))"
    by (simp only: right_def key_part_y_64 key_right_64 key_def)
  also have "\<dots> =
    (if ucast (key_right (key f) AND MASK_X) \<ge> size_x f
        \<or> ucast (key_right (key f) AND MASK_Y) \<ge> size_y f
     then Inr (DeadVisited AND msk,
            record_event (OffGrid (ucast (key_right (key f)))) (f\<lparr>idx := ucast (key_right (key f))\<rparr>))
     else seq (cell_at (ucast (key_right (key f))) (f\<lparr>idx := ucast (key_right (key f))\<rparr>))
            (\<lambda>c. Inr (c AND msk,
               record_event (Probe (ucast (key_right (key f)))) (f\<lparr>idx := ucast (key_right (key f))\<rparr>))))"
    by (simp add: Let_def key_right_parts key_right_def [symmetric])
  also have "\<dots> = Inr (landing msk (key_right (key f)) f)"
    by (rule landed_eq [OF assms])
  finally show ?thesis .
qed

lemma left_eq:
  assumes "wf f"
  shows "left msk f = Inr (landing msk (key_left (key f)) f)"
proof -
  have "left msk f =
    (let y = key f AND MASK_Y; x = ((key f AND MASK_X) - 1) AND MASK_X;
         f1 = f\<lparr>idx := ucast (y OR x)\<rparr>
     in if ucast x \<ge> size_x f1 \<or> ucast y \<ge> size_y f1
        then Inr (DeadVisited AND msk, record_event (OffGrid (idx f1)) f1)
        else seq (cell_at (idx f1) f1)
               (\<lambda>c. Inr (c AND msk, record_event (Probe (idx f1)) f1)))"
    by (simp only: left_def key_part_y_64 key_left_64 key_def)
  also have "\<dots> =
    (if ucast (key_left (key f) AND MASK_X) \<ge> size_x f
        \<or> ucast (key_left (key f) AND MASK_Y) \<ge> size_y f
     then Inr (DeadVisited AND msk,
            record_event (OffGrid (ucast (key_left (key f)))) (f\<lparr>idx := ucast (key_left (key f))\<rparr>))
     else seq (cell_at (ucast (key_left (key f))) (f\<lparr>idx := ucast (key_left (key f))\<rparr>))
            (\<lambda>c. Inr (c AND msk,
               record_event (Probe (ucast (key_left (key f)))) (f\<lparr>idx := ucast (key_left (key f))\<rparr>))))"
    by (simp add: Let_def key_left_parts key_left_def [symmetric])
  also have "\<dots> = Inr (landing msk (key_left (key f)) f)"
    by (rule landed_eq [OF assms])
  finally show ?thesis .
qed

lemma up_eq:
  assumes "wf f"
  shows "up msk f = Inr (landing msk (key_up (key f)) f)"
proof -
  have "up msk f =
    (let x = key f AND MASK_X; y = ((key f AND MASK_Y) - 1) AND MASK_Y;
         f1 = f\<lparr>idx := ucast (x OR y)\<rparr>
     in if ucast y \<ge> size_y f1 \<or> ucast x \<ge> size_x f1
        then Inr (DeadVisited AND msk, record_event (OffGrid (idx f1)) f1)
        else seq (cell_at (idx f1) f1)
               (\<lambda>c. Inr (c AND msk, record_event (Probe (idx f1)) f1)))"
    by (simp only: up_def key_part_x_64 key_up_64 key_def)
  also have "\<dots> =
    (if ucast (key_up (key f) AND MASK_X) \<ge> size_x f
        \<or> ucast (key_up (key f) AND MASK_Y) \<ge> size_y f
     then Inr (DeadVisited AND msk,
            record_event (OffGrid (ucast (key_up (key f)))) (f\<lparr>idx := ucast (key_up (key f))\<rparr>))
     else seq (cell_at (ucast (key_up (key f))) (f\<lparr>idx := ucast (key_up (key f))\<rparr>))
            (\<lambda>c. Inr (c AND msk,
               record_event (Probe (ucast (key_up (key f)))) (f\<lparr>idx := ucast (key_up (key f))\<rparr>))))"
    by (simp add: Let_def key_up_parts key_up_def [symmetric] disj_commute)
  also have "\<dots> = Inr (landing msk (key_up (key f)) f)"
    by (rule landed_eq [OF assms])
  finally show ?thesis .
qed

lemma down_eq:
  assumes "wf f"
  shows "down msk f = Inr (landing msk (key_down (key f)) f)"
proof -
  have "down msk f =
    (let x = key f AND MASK_X; y = ((key f OR MASK_X) + 1) AND MASK_Y;
         f1 = f\<lparr>idx := ucast (x OR y)\<rparr>
     in if ucast y \<ge> size_y f1 \<or> ucast x \<ge> size_x f1
        then Inr (DeadVisited AND msk, record_event (OffGrid (idx f1)) f1)
        else seq (cell_at (idx f1) f1)
               (\<lambda>c. Inr (c AND msk, record_event (Probe (idx f1)) f1)))"
    by (simp only: down_def key_part_x_64 key_down_64 key_def)
  also have "\<dots> =
    (if ucast (key_down (key f) AND MASK_X) \<ge> size_x f
        \<or> ucast (key_down (key f) AND MASK_Y) \<ge> size_y f
     then Inr (DeadVisited AND msk,
            record_event (OffGrid (ucast (key_down (key f)))) (f\<lparr>idx := ucast (key_down (key f))\<rparr>))
     else seq (cell_at (ucast (key_down (key f))) (f\<lparr>idx := ucast (key_down (key f))\<rparr>))
            (\<lambda>c. Inr (c AND msk,
               record_event (Probe (ucast (key_down (key f)))) (f\<lparr>idx := ucast (key_down (key f))\<rparr>))))"
    by (simp add: Let_def key_down_parts key_down_def [symmetric] disj_commute)
  also have "\<dots> = Inr (landing msk (key_down (key f)) f)"
    by (rule landed_eq [OF assms])
  finally show ?thesis .
qed

subsection \<open>What the steps leave alone\<close>

lemma wf_idx_update [simp]: "wf (f\<lparr>idx := i\<rparr>) = wf f"
  by (simp add: wf_def)

lemma wf_trace_update [simp]: "wf (f\<lparr>trace := t\<rparr>) = wf f"
  by (simp add: wf_def)

lemma wf_record_event [simp]: "wf (record_event e f) = wf f"
  by (simp add: record_event_def)

lemma record_event_sel [simp]:
  "cells (record_event e f) = cells f"
  "idx (record_event e f) = idx f"
  "n_bits (record_event e f) = n_bits f"
  "size_x (record_event e f) = size_x f"
  "size_y (record_event e f) = size_y f"
  "fsize (record_event e f) = fsize f"
  "trace (record_event e f) = trace f @ [e]"
  by (simp_all add: record_event_def)

lemma key_simps [simp]:
  "key (record_event e f) = key f"
  "key (f\<lparr>idx := ucast k\<rparr>) = k"
  "key (f\<lparr>trace := t\<rparr>) = key f"
  "key (f\<lparr>cells := cs\<rparr>) = key f"
  by (simp_all add: key_def ucast_up_down)

lemma off_grid_simps [simp]:
  "off_grid (record_event e f) = off_grid f"
  "off_grid (f\<lparr>idx := i\<rparr>) = off_grid f"
  "off_grid (f\<lparr>trace := t\<rparr>) = off_grid f"
  "off_grid (f\<lparr>cells := cs\<rparr>) = off_grid f"
  by (simp_all add: off_grid_def fun_eq_iff)

lemma probe_simps [simp]:
  "probe (record_event e f) = probe f"
  "probe (f\<lparr>idx := i\<rparr>) = probe f"
  "probe (f\<lparr>trace := t\<rparr>) = probe f"
  by (simp_all add: probe_def fun_eq_iff)

lemma probe_event_simps [simp]:
  "probe_event (record_event e f) = probe_event f"
  "probe_event (f\<lparr>idx := i\<rparr>) = probe_event f"
  "probe_event (f\<lparr>trace := t\<rparr>) = probe_event f"
  "probe_event (f\<lparr>cells := cs\<rparr>) = probe_event f"
  by (simp_all add: probe_event_def fun_eq_iff)

subsection \<open>The neighbour walk\<close>

text \<open>The keys the cursor passes through in \<^verbatim>\<open>countAliveNeighbors\<close>, in order.\<close>

definition walk :: "32 word \<Rightarrow> 32 word list" where
  "walk k =
     (let k1 = key_up k; k2 = key_left k1; k3 = key_down k2; k4 = key_down k3;
          k5 = key_right k4; k6 = key_right k5; k7 = key_up k6; k8 = key_up k7
      in [k1, k2, k3, k4, k5, k6, k7, k8])"

definition count_alive :: "GameField \<Rightarrow> 32 word \<Rightarrow> 8 word" where
  "count_alive f k = sum_list (map (\<lambda>j. probe f j AND Alive) (walk k))"

lemma count_alive_simps [simp]:
  "count_alive (record_event e f) = count_alive f"
  "count_alive (f\<lparr>idx := i\<rparr>) = count_alive f"
  "count_alive (f\<lparr>trace := t\<rparr>) = count_alive f"
  by (simp_all add: count_alive_def fun_eq_iff)

lemma countAliveNeighbors_eq:
  assumes "wf f"
  shows "countAliveNeighbors f =
    Inr (count_alive f (key f),
         f\<lparr>trace := trace f @ map (probe_event f) (walk (key f))\<rparr>)"
  using assms
  by (simp add: countAliveNeighbors_def up_eq left_eq down_eq right_eq landing_def
      count_alive_def walk_def Let_def record_event_def ac_simps)

subsection \<open>The transition rule\<close>

text \<open>The state \<^verbatim>\<open>updateCell\<close> leaves in a cell that held \<open>c\<close> and counted \<open>nb\<close>.\<close>

definition next_state :: "8 word \<Rightarrow> 8 word \<Rightarrow> 8 word" where
  "next_state c nb =
     (if c = Alive \<and> (nb < 2 \<or> nb > 3) then Dying
      else if c = Dead then (if nb = 3 then Birthing else DeadVisited)
      else c)"

definition cursor_ok :: "GameField \<Rightarrow> bool" where
  "cursor_ok f \<longleftrightarrow> unat (idx f) < length (cells f)"

definition updated :: "GameField \<Rightarrow> GameField" where
  "updated f =
     (let i = unat (idx f); c = cells f ! i; c' = next_state c (count_alive f (key f))
      in f\<lparr>cells := (cells f)[i := c'],
           trace := trace f @ Rule (idx f) # map (probe_event f) (walk (key f))
                      @ (if c' = c then [] else [Write (idx f)])\<rparr>)"

lemma updateCell_eq:
  assumes "wf f" and "cursor_ok f"
  shows "updateCell f = Inr (updated f)"
  using assms
  by (auto simp add: updateCell_def countAliveNeighbors_eq cell_at_def set_cell_def
      cursor_ok_def updated_def next_state_def Let_def record_event_def Cell_defs)

lemma key_left_right [simp]: "key_left (key_right k) = k"
  by (rule key_eqI) simp_all

lemma key_up_down [simp]: "key_up (key_down k) = k"
  by (rule key_eqI) simp_all

lemma landing_sel [simp]:
  "fst (landing msk k f) = probe f k AND msk"
  "snd (landing msk k f) = record_event (probe_event f k) (f\<lparr>idx := ucast k\<rparr>)"
  by (simp_all add: landing_def)

section \<open>Example grids\<close>

text \<open>A grid of side \<open>2 ^ n\<close> holding the cells \<open>cs\<close>, with the cursor on \<open>i\<close>.\<close>

definition grid_of :: "nat \<Rightarrow> 8 word list \<Rightarrow> 64 word \<Rightarrow> GameField" where
  "grid_of n cs i =
     \<lparr>n_bits = of_nat n, size_x = 2 ^ (2 * n), size_y = 2 ^ (2 * n + 1), cells = cs,
      fsize = 2 ^ n, idx = i, trace = []\<rparr>"

section \<open>Frame of \<^verbatim>\<open>setCursor\<close>\<close>

text \<open>
  C10. For \<open>x \<ge> N\<close> or \<open>y \<ge> N\<close>, \<^verbatim>\<open>setCursor(x, y)\<close> returns the value
  \<open>DeadVisited\<close> and leaves the cursor and every cell as they were: the grid returned
  is the grid given.
\<close>

theorem setCursor_off_grid:
  "x \<ge> fsize f \<or> y \<ge> fsize f \<Longrightarrow> setCursor x y f = Inr (DeadVisited, f)"
  by (simp add: setCursor_def)

theorem setCursor_off_grid_witness:
  "setCursor 4 0
     \<lparr>n_bits = 1, size_x = 4, size_y = 8, cells = [0, 1, 0, 0], fsize = 2, idx = 3,
      trace = []\<rparr>
   = Inr (DeadVisited,
     \<lparr>n_bits = 1, size_x = 4, size_y = 8, cells = [0, 1, 0, 0], fsize = 2, idx = 3,
      trace = []\<rparr>)"
  using setCursor_off_grid [of "\<lparr>n_bits = 1, size_x = 4, size_y = 8, cells = [0, 1, 0, 0],
      fsize = 2, idx = 3, trace = []\<rparr>" 4 0]
  by simp

section \<open>The walk in coordinates\<close>

lemma key_up_interleaveXY: "key_up (interleaveXY x y) = interleaveXY x (y - 1)"
  by (rule key_eqI) simp_all

lemma key_down_interleaveXY: "key_down (interleaveXY x y) = interleaveXY x (y + 1)"
  by (rule key_eqI) simp_all

lemma key_left_interleaveXY: "key_left (interleaveXY x y) = interleaveXY (x - 1) y"
  by (rule key_eqI) simp_all

lemma key_right_interleaveXY: "key_right (interleaveXY x y) = interleaveXY (x + 1) y"
  by (rule key_eqI) simp_all

text \<open>
  The eight Moore neighbours of \<open>(x, y)\<close>, as N, NW, W, SW, S, SE, E, NE; \<^verbatim>\<open>up\<close>
  decrements \<open>y\<close>. Coordinates are 16-bit, so the neighbours of a border cell that
  lie outside the board have a coordinate of \<open>2 ^ 16 - 1\<close> or of \<open>N\<close>.
\<close>

definition moore :: "16 word \<Rightarrow> 16 word \<Rightarrow> (16 word \<times> 16 word) list" where
  "moore x y =
     [(x, y - 1), (x - 1, y - 1), (x - 1, y), (x - 1, y + 1),
      (x, y + 1), (x + 1, y + 1), (x + 1, y), (x + 1, y - 1)]"

lemma walk_interleaveXY:
  "walk (interleaveXY x y) = map (\<lambda>(a, b). interleaveXY a b) (moore x y)"
  by (simp add: walk_def moore_def Let_def key_up_interleaveXY key_down_interleaveXY
      key_left_interleaveXY key_right_interleaveXY)

lemma word16_inc_neq: "x + 1 \<noteq> (x :: 16 word)"
  by simp

lemma word16_dec_neq: "x - 1 \<noteq> (x :: 16 word)"
proof
  assume "x - 1 = x"
  then have "x - 1 - x = x - x" by simp
  then show False by simp
qed

lemma word16_dec_inc_neq: "x - 1 \<noteq> x + (1 :: 16 word)"
proof
  assume "x - 1 = x + 1"
  then have "x - 1 - x = x + 1 - x" by simp
  then show False by simp
qed

lemmas word16_shift_neq =
  word16_inc_neq word16_dec_neq word16_dec_inc_neq
  word16_inc_neq [symmetric] word16_dec_neq [symmetric] word16_dec_inc_neq [symmetric]

lemma distinct_moore: "distinct (moore x y)"
  by (simp add: moore_def word16_shift_neq)

lemma interleaveXY_inj [simp]: "interleaveXY a b = interleaveXY c d \<longleftrightarrow> a = c \<and> b = d"
  by (metis decodeX_interleaveXY decodeY_interleaveXY)

lemma distinct_walk: "distinct (walk k)"
proof -
  have "distinct (walk (interleaveXY (decodeX k) (decodeY k)))"
    unfolding walk_interleaveXY
    by (simp add: distinct_map distinct_moore inj_on_def split_beta prod_eq_iff)
  then show ?thesis by simp
qed

definition on_board :: "GameField \<Rightarrow> 16 word \<Rightarrow> 16 word \<Rightarrow> bool" where
  "on_board f x y \<longleftrightarrow> x < 2 ^ unat (n_bits f) \<and> y < 2 ^ unat (n_bits f)"

lemma off_grid_interleaveXY: "wf f \<Longrightarrow> off_grid f (interleaveXY x y) \<longleftrightarrow> \<not> on_board f x y"
  by (simp add: off_grid_iff on_board_def)

text \<open>
  C4. With the cursor on the key of a coordinate \<open>(x, y)\<close> of the board,
  \<^verbatim>\<open>countAliveNeighbors\<close> returns the grid with the cursor where it was; the log
  grows by one entry for each of the eight Moore neighbours, in the order N, NW, W, SW,
  S, SE, E, NE, a read for a neighbour on the board and no read for one outside; the
  eight are pairwise different; and the count returned is the sum of the low bits of
  the neighbours on the board.
\<close>

theorem countAliveNeighbors_moore:
  assumes "wf f" and "on_board f x y" and "idx f = ucast (interleaveXY x y)"
  shows "countAliveNeighbors f =
      Inr (sum_list (map (\<lambda>(a, b). if on_board f a b
                                   then cells f ! unat (interleaveXY a b) AND 1 else 0)
                      (moore x y)),
           f\<lparr>trace := trace f @
                map (\<lambda>(a, b). if on_board f a b then Probe (ucast (interleaveXY a b))
                              else OffGrid (ucast (interleaveXY a b)))
                  (moore x y)\<rparr>)
    \<and> distinct (moore x y)"
proof -
  from assms(3) have k: "key f = interleaveXY x y"
    by (simp add: key_def ucast_up_down)
  have p: "probe f (interleaveXY a b) AND Alive =
      (if on_board f a b then cells f ! unat (interleaveXY a b) AND 1 else 0)" for a b
    using assms(1) by (simp add: probe_def off_grid_interleaveXY Cell_defs)
  have e: "probe_event f (interleaveXY a b) =
      (if on_board f a b then Probe (ucast (interleaveXY a b))
       else OffGrid (ucast (interleaveXY a b)))" for a b
    using assms(1) by (simp add: probe_event_def off_grid_interleaveXY)
  show ?thesis
    using assms(1)
    by (simp add: countAliveNeighbors_eq k count_alive_def walk_interleaveXY
        distinct_moore o_def case_prod_unfold p e)
qed

theorem countAliveNeighbors_moore_witness:
  "countAliveNeighbors (grid_of 1 [1, 1, 0, 1] 0) =
      Inr (2, (grid_of 1 [1, 1, 0, 1] 0)\<lparr>trace := [OffGrid 2863311530, OffGrid 4294967295,
            OffGrid 1431655765, OffGrid 1431655767, Probe 2, Probe 3, Probe 1,
            OffGrid 2863311531]\<rparr>)
   \<and> distinct (moore 0 0)"
proof -
  let ?f = "grid_of 1 [1, 1, 0, 1] 0"
  have w: "wf ?f"
    by (simp add: wf_def grid_of_def)
  have b: "on_board ?f 0 0"
    by (simp add: on_board_def grid_of_def)
  have k: "idx ?f = ucast (interleaveXY 0 0)"
    by code_simp
  have c: "sum_list (map (\<lambda>(a, b). if on_board ?f a b
                                   then cells ?f ! unat (interleaveXY a b) AND 1 else 0)
                      (moore 0 0)) = 2"
    by code_simp
  have t: "trace ?f @
                map (\<lambda>(a, b). if on_board ?f a b then Probe (ucast (interleaveXY a b))
                              else OffGrid (ucast (interleaveXY a b)))
                  (moore 0 0) = [OffGrid 2863311530, OffGrid 4294967295,
            OffGrid 1431655765, OffGrid 1431655767, Probe 2, Probe 3, Probe 1,
            OffGrid 2863311531]"
    by code_simp
  from countAliveNeighbors_moore [OF w b k] show ?thesis
    unfolding c t by simp
qed

section \<open>Stepping there and back\<close>

definition interior :: "GameField \<Rightarrow> 16 word \<Rightarrow> 16 word \<Rightarrow> bool" where
  "interior f x y \<longleftrightarrow>
     0 < unat x \<and> unat x + 1 < 2 ^ unat (n_bits f) \<and>
     0 < unat y \<and> unat y + 1 < 2 ^ unat (n_bits f)"

text \<open>
  C8. With the cursor on the key of an interior coordinate \<open>(x, y)\<close>, \<^verbatim>\<open>right()\<close>
  followed by \<^verbatim>\<open>left()\<close> returns the cursor to that key, and so does \<^verbatim>\<open>down()\<close>
  followed by \<^verbatim>\<open>up()\<close>; no cell changes on the way.
\<close>

theorem step_and_back:
  assumes "wf f" and "interior f x y" and "idx f = ucast (interleaveXY x y)"
  shows "(\<exists>c1 f1 c2 f2. right m1 f = Inr (c1, f1) \<and> left m2 f1 = Inr (c2, f2)
            \<and> idx f2 = idx f \<and> cells f2 = cells f)
       \<and> (\<exists>c1 f1 c2 f2. down m1 f = Inr (c1, f1) \<and> up m2 f1 = Inr (c2, f2)
            \<and> idx f2 = idx f \<and> cells f2 = cells f)"
  using assms
  by (simp add: right_eq left_eq up_eq down_eq landing_def key_def ucast_up_down)

theorem step_and_back_witness:
  "(\<exists>c1 f1 c2 f2. right 1 (grid_of 2 (replicate 16 0) 3) = Inr (c1, f1)
        \<and> left 1 f1 = Inr (c2, f2) \<and> idx f2 = 3 \<and> cells f2 = replicate 16 0)
   \<and> (\<exists>c1 f1 c2 f2. down 1 (grid_of 2 (replicate 16 0) 3) = Inr (c1, f1)
        \<and> up 1 f1 = Inr (c2, f2) \<and> idx f2 = 3 \<and> cells f2 = replicate 16 0)"
proof -
  have w: "wf (grid_of 2 (replicate 16 0) 3)"
    by (simp add: wf_def grid_of_def)
  have i: "interior (grid_of 2 (replicate 16 0) 3) 1 1"
    by (simp add: interior_def grid_of_def)
  have k: "idx (grid_of 2 (replicate 16 0) 3) = ucast (interleaveXY 1 1)"
    by (simp add: grid_of_def interleaveXY_def delta_swap_def)
  from step_and_back [OF w i k, of 1 1] show ?thesis
    by (simp add: grid_of_def)
qed

section \<open>Revisiting an evaluated cell\<close>

text \<open>
  C7. \<^verbatim>\<open>updateCell\<close> with the cursor on a cell that is \<open>Birthing\<close>, \<open>Dying\<close> or
  \<open>DeadVisited\<close> returns the grid it was given: every cell, the cursor and the sizes
  are the same, and only the observation log has grown.
\<close>

theorem updateCell_revisit:
  assumes "wf f" and "cursor_ok f"
    and "cells f ! unat (idx f) = Birthing \<or> cells f ! unat (idx f) = Dying
         \<or> cells f ! unat (idx f) = DeadVisited"
  shows "updateCell f =
    Inr (f\<lparr>trace := trace f @ Rule (idx f) # map (probe_event f) (walk (key f))\<rparr>)"
  using assms
  by (auto simp add: updateCell_eq updated_def next_state_def Cell_defs Let_def)

theorem updateCell_revisit_witness:
  "updateCell (grid_of 1 [2, 1, 1, 1] 0) =
    Inr ((grid_of 1 [2, 1, 1, 1] 0)\<lparr>trace := [Rule 0, OffGrid 2863311530, OffGrid 4294967295,
            OffGrid 1431655765, OffGrid 1431655767, Probe 2, Probe 3, Probe 1,
            OffGrid 2863311531]\<rparr>)"
proof -
  have w: "wf (grid_of 1 [2, 1, 1, 1] 0)"
    by (simp add: wf_def grid_of_def)
  have c: "cursor_ok (grid_of 1 [2, 1, 1, 1] 0)"
    by (simp add: cursor_ok_def grid_of_def)
  have b: "cells (grid_of 1 [2, 1, 1, 1] 0) ! unat (idx (grid_of 1 [2, 1, 1, 1] 0)) = Birthing
    \<or> cells (grid_of 1 [2, 1, 1, 1] 0) ! unat (idx (grid_of 1 [2, 1, 1, 1] 0)) = Dying
    \<or> cells (grid_of 1 [2, 1, 1, 1] 0) ! unat (idx (grid_of 1 [2, 1, 1, 1] 0)) = DeadVisited"
    by (simp add: grid_of_def Cell_defs)
  from updateCell_revisit [OF w c b] show ?thesis
    by (simp add: grid_of_def walk_def key_def key_up_def key_left_def key_down_def
        key_right_def MASK_X_def MASK_Y_def probe_event_def off_grid_def word_le_nat_alt)
qed

section \<open>Loops\<close>

lemma seq_assoc: "seq (seq m f) g = seq m (\<lambda>a. seq (f a) g)"
  by (cases m) simp_all

lemma seq_Inr_right [simp]: "seq m Inr = m"
  by (cases m) simp_all

lemma for_each_append:
  "for_each (xs @ ys) body s = seq (for_each xs body s) (for_each ys body)"
proof (induction xs arbitrary: s)
  case Nil
  show ?case by simp
next
  case (Cons x xs)
  show ?case
    by (cases "body x s") (simp_all add: Cons.IH)
qed

text \<open>An invariant over the part of the list already done.\<close>

lemma for_each_invariant_from:
  assumes "I pre s"
    and "\<And>done x s. I done s \<Longrightarrow> x \<in> set xs \<Longrightarrow> \<exists>s'. body x s = Inr s' \<and> I (done @ [x]) s'"
  shows "\<exists>s'. for_each xs body s = Inr s' \<and> I (pre @ xs) s'"
  using assms
proof (induction xs arbitrary: pre s)
  case Nil
  then show ?case by simp
next
  case (Cons x xs)
  from Cons.prems(2) [OF Cons.prems(1), of x]
  obtain s1 where s1: "body x s = Inr s1" "I (pre @ [x]) s1" by auto
  have "\<exists>s'. for_each xs body s1 = Inr s' \<and> I ((pre @ [x]) @ xs) s'"
  proof (rule Cons.IH [OF s1(2)])
    fix done' x' s'
    assume "I done' s'" "x' \<in> set xs"
    then show "\<exists>t. body x' s' = Inr t \<and> I (done' @ [x']) t"
      using Cons.prems(2) [of done' s' x'] by simp
  qed
  with s1 show ?case by simp
qed

lemma for_each_invariant:
  assumes "I [] s"
    and "\<And>done x s. I done s \<Longrightarrow> x \<in> set xs \<Longrightarrow> \<exists>s'. body x s = Inr s' \<and> I (done @ [x]) s'"
  shows "\<exists>s'. for_each xs body s = Inr s' \<and> I xs s'"
  using for_each_invariant_from [of I "[]" s xs body] assms by simp

lemma upt_0_Suc_shift: "[0..<Suc n] = 0 # map Suc [0..<n]"
proof -
  have "[0..<Suc n] = 0 # [Suc 0..<Suc n]" by (rule upt_conv_Cons) simp
  also have "[Suc 0..<Suc n] = map Suc [0..<n]" by (rule map_Suc_upt [symmetric])
  finally show ?thesis .
qed

lemma counted_row:
  "for_each xs (\<lambda>x (i, g). seq (body i g) (\<lambda>g1. Inr (i + 1, g1))) (i, g) =
     seq (for_each (map (\<lambda>j. i + of_nat j) [0..<length xs]) body g)
       (\<lambda>g'. Inr (i + of_nat (length xs), g'))"
proof (induction xs arbitrary: i g)
  case Nil
  show ?case by simp
next
  case (Cons x xs)
  have m: "map (\<lambda>j. i + of_nat j) [0..<length (x # xs)] =
      i # map (\<lambda>j. i + 1 + of_nat j) [0..<length xs]"
    unfolding length_Cons upt_0_Suc_shift by (simp add: o_def add.assoc)
  show ?case
  proof (cases "body i g")
    case (Inl e)
    then show ?thesis unfolding m by simp
  next
    case (Inr g1)
    then show ?thesis unfolding m by (simp add: Cons.IH add.assoc)
  qed
qed

lemma counted_rows:
  "for_each ys (\<lambda>y. for_each xs (\<lambda>x (i, g). seq (body i g) (\<lambda>g1. Inr (i + 1, g1)))) (i, g) =
     seq (for_each (map (\<lambda>j. i + of_nat j) [0..<length ys * length xs]) body g)
       (\<lambda>g'. Inr (i + of_nat (length ys * length xs), g'))"
proof (induction ys arbitrary: i g)
  case Nil
  show ?case by simp
next
  case (Cons y ys)
  let ?m = "length xs" and ?k = "length ys"
  have split: "[0..<length (y # ys) * ?m] = [0..<?m] @ [?m..<?m + ?k * ?m]"
    using upt_add_eq_append [of 0 ?m "?k * ?m"] by simp
  have shift: "map (\<lambda>j. i + of_nat j) [?m..<?m + ?k * ?m] =
      map (\<lambda>j. i + of_nat ?m + of_nat j) [0..<?k * ?m]"
  proof -
    have "[?m..<?m + ?k * ?m] = map (\<lambda>j. j + ?m) [0..<?k * ?m]"
      using map_add_upt [of ?m "?k * ?m"] by (simp only: add.commute [of ?m])
    then have "map (\<lambda>j. i + of_nat j) [?m..<?m + ?k * ?m] =
        map (\<lambda>j. i + of_nat (j + ?m)) [0..<?k * ?m]"
      by (simp only: map_map o_def)
    also have "(\<lambda>j. i + of_nat (j + ?m)) = (\<lambda>j. i + of_nat ?m + of_nat j)"
      by (rule ext) (simp add: algebra_simps)
    finally show ?thesis .
  qed
  have "for_each (y # ys) (\<lambda>y. for_each xs (\<lambda>x (i, g). seq (body i g) (\<lambda>g1. Inr (i + 1, g1)))) (i, g)
    = seq (for_each (map (\<lambda>j. i + of_nat j) [0..<?m]) body g)
        (\<lambda>g'. seq (for_each (map (\<lambda>j. i + of_nat ?m + of_nat j) [0..<?k * ?m]) body g')
           (\<lambda>g''. Inr (i + of_nat ?m + of_nat (?k * ?m), g'')))"
    by (simp add: counted_row Cons.IH seq_assoc)
  also have "\<dots> = seq (for_each (map (\<lambda>j. i + of_nat j) [0..<length (y # ys) * ?m]) body g)
       (\<lambda>g'. Inr (i + of_nat (length (y # ys) * ?m), g'))"
    unfolding split map_append for_each_append shift
    by (simp add: seq_assoc add.assoc)
  finally show ?case .
qed

lemma scan_grid_flat:
  "scan_grid body f =
     for_each (map of_nat [0..<unat (fsize f) * unat (fsize f)]) body f"
  using counted_rows [of "[0..<unat (fsize f)]" "[0..<unat (fsize f)]" body 0 f]
  by (simp add: scan_grid_def seq_assoc)

section \<open>One generation\<close>

subsection \<open>The rule on cell states\<close>

lemma next_state_low_bit: "next_state c nb AND 1 = c AND 1"
  by (simp add: next_state_def Cell_defs)

lemma next_state_idem: "next_state (next_state c nb) nb = next_state c nb"
  by (simp add: next_state_def Cell_defs)

lemma next_state_Dead: "next_state Dead nb = (if nb = 3 then Birthing else DeadVisited)"
  by (simp add: next_state_def Cell_defs)

lemma next_state_Alive:
  "next_state Alive nb = (if nb < 2 \<or> nb > 3 then Dying else Alive)"
  by (simp add: next_state_def Cell_defs)

lemma masked_low_bit:
  fixes c :: "8 word"
  assumes "c AND (Alive OR DeadVisited) = Dead"
  shows "c AND 1 = 0"
proof -
  have "c AND 1 = (c AND (Alive OR DeadVisited)) AND 1"
    by (simp add: Cell_defs and.assoc)
  with assms show ?thesis by (simp add: Cell_defs)
qed

lemma masked_cases:
  "Dead AND (Alive OR DeadVisited) = Dead"
  "Birthing AND (Alive OR DeadVisited) = Dead"
  "Alive AND (Alive OR DeadVisited) \<noteq> Dead"
  "Dying AND (Alive OR DeadVisited) \<noteq> Dead"
  "DeadVisited AND (Alive OR DeadVisited) \<noteq> Dead"
  by (simp_all add: Cell_defs)

subsection \<open>The state of a tick in progress\<close>

text \<open>Between ticks every cell is \<open>Dead\<close> or \<open>Alive\<close>.\<close>

definition settled :: "GameField \<Rightarrow> bool" where
  "settled f \<longleftrightarrow> list_all (\<lambda>c. c = Dead \<or> c = Alive) (cells f)"

text \<open>
  \<open>f0\<close> is the grid when the tick began and \<open>g\<close> the grid now. \<open>target f0 k\<close> is
  what the rule makes of the cell \<open>k\<close> of \<open>f0\<close>.
\<close>

definition target :: "GameField \<Rightarrow> 32 word \<Rightarrow> 8 word" where
  "target f0 k = next_state (cells f0 ! unat k) (count_alive f0 k)"

definition same_frame :: "GameField \<Rightarrow> GameField \<Rightarrow> bool" where
  "same_frame f0 g \<longleftrightarrow>
     n_bits g = n_bits f0 \<and> size_x g = size_x f0 \<and> size_y g = size_y f0 \<and>
     fsize g = fsize f0 \<and> length (cells g) = length (cells f0)"

definition evaluated :: "GameField \<Rightarrow> GameField \<Rightarrow> 32 word \<Rightarrow> bool" where
  "evaluated f0 g k \<longleftrightarrow> cells g ! unat k = target f0 k"

definition partly :: "GameField \<Rightarrow> GameField \<Rightarrow> bool" where
  "partly f0 g \<longleftrightarrow>
     (\<forall>k. \<not> off_grid f0 k \<longrightarrow> cells g ! unat k = cells f0 ! unat k \<or> evaluated f0 g k)"

definition waiting :: "GameField \<Rightarrow> 32 word set \<Rightarrow> GameField \<Rightarrow> bool" where
  "waiting f0 Q g \<longleftrightarrow>
     (\<forall>k. \<not> off_grid f0 k \<longrightarrow> cells f0 ! unat k = Alive \<longrightarrow> k \<notin> Q
        \<longrightarrow> cells g ! unat k = Alive)"

definition covered :: "GameField \<Rightarrow> GameField \<Rightarrow> 32 word list \<Rightarrow> bool" where
  "covered f0 g ks \<longleftrightarrow>
     (\<forall>j\<in>set ks. \<not> off_grid f0 j \<longrightarrow> cells f0 ! unat j = Dead \<longrightarrow> evaluated f0 g j)"

definition finished :: "GameField \<Rightarrow> 32 word set \<Rightarrow> GameField \<Rightarrow> bool" where
  "finished f0 P g \<longleftrightarrow>
     (\<forall>a\<in>P. \<not> off_grid f0 a \<longrightarrow> cells f0 ! unat a = Alive
        \<longrightarrow> evaluated f0 g a \<and> covered f0 g (walk a))"

text \<open>
  The log of the tick so far, for the cell \<open>k\<close>: no more writes than rule applications;
  a cell that was \<open>Dead\<close> has been written once when it is no longer \<open>Dead\<close> and not
  before; and when its count is not 3 the rule has been applied to it as often.
\<close>

definition tally :: "GameField \<Rightarrow> GameField \<Rightarrow> event list \<Rightarrow> 32 word \<Rightarrow> bool" where
  "tally f0 g tr k \<longleftrightarrow>
     count_list tr (Write (ucast k)) \<le> count_list tr (Rule (ucast k)) \<and>
     (cells f0 ! unat k = Dead \<longrightarrow>
        count_list tr (Write (ucast k)) = (if cells g ! unat k = Dead then 0 else 1) \<and>
        (count_alive f0 k \<noteq> 3 \<longrightarrow>
           count_list tr (Rule (ucast k)) = (if cells g ! unat k = Dead then 0 else 1)))"

definition logged :: "GameField \<Rightarrow> GameField \<Rightarrow> bool" where
  "logged f0 g \<longleftrightarrow>
     (\<exists>tr. trace g = trace f0 @ tr \<and> (\<forall>k. \<not> off_grid f0 k \<longrightarrow> tally f0 g tr k))"

definition in_tick :: "GameField \<Rightarrow> 32 word set \<Rightarrow> 32 word set \<Rightarrow> GameField \<Rightarrow> bool" where
  "in_tick f0 Q P g \<longleftrightarrow>
     same_frame f0 g \<and> partly f0 g \<and> waiting f0 Q g \<and> finished f0 P g \<and> logged f0 g"

definition keeps :: "GameField \<Rightarrow> GameField \<Rightarrow> GameField \<Rightarrow> bool" where
  "keeps f0 g g' \<longleftrightarrow> (\<forall>j. \<not> off_grid f0 j \<longrightarrow> evaluated f0 g j \<longrightarrow> evaluated f0 g' j)"

lemma same_frame_wf: "wf f0 \<Longrightarrow> same_frame f0 g \<Longrightarrow> wf g"
  by (simp add: wf_def same_frame_def)

lemma same_frame_off_grid: "same_frame f0 g \<Longrightarrow> off_grid g = off_grid f0"
  by (simp add: same_frame_def off_grid_def fun_eq_iff)

lemma settled_cell:
  assumes "wf f0" and "settled f0" and "\<not> off_grid f0 k"
  shows "cells f0 ! unat k = Dead \<or> cells f0 ! unat k = Alive"
proof -
  from assms(1,3) have "unat k < length (cells f0)"
    by (simp add: on_grid_iff_unat)
  with assms(2) show ?thesis
    by (simp add: settled_def list_all_length)
qed

lemma target_cases:
  assumes "wf f0" and "settled f0" and "\<not> off_grid f0 k"
  shows "cells f0 ! unat k = Dead \<and> (target f0 k = Birthing \<or> target f0 k = DeadVisited)
       \<or> cells f0 ! unat k = Alive \<and> (target f0 k = Alive \<or> target f0 k = Dying)"
  using settled_cell [OF assms]
  by (auto simp add: target_def next_state_Dead next_state_Alive split: if_splits)

lemma low_bit_kept:
  assumes "partly f0 g" and "\<not> off_grid f0 k"
  shows "cells g ! unat k AND 1 = cells f0 ! unat k AND 1"
  using assms
  by (auto simp add: partly_def evaluated_def target_def next_state_low_bit)

lemma probe_low_bit:
  assumes "same_frame f0 g" and "partly f0 g"
  shows "probe g k AND Alive = probe f0 k AND Alive"
  using assms low_bit_kept [OF assms(2), of k]
  by (simp add: probe_def same_frame_off_grid Alive_def)

lemma count_alive_kept:
  assumes "same_frame f0 g" and "partly f0 g"
  shows "count_alive g k = count_alive f0 k"
  by (simp add: count_alive_def probe_low_bit [OF assms])

lemma ucast_up_eq_iff [simp]: "(ucast (k :: 32 word) :: 64 word) = ucast j \<longleftrightarrow> k = j"
proof
  assume "(ucast k :: 64 word) = ucast j"
  then have "unat (ucast k :: 64 word) = unat (ucast j :: 64 word)" by simp
  then show "k = j" by (simp add: word_unat_eq_iff)
qed simp

lemma probe_events_no_rule [simp]:
  "count_list (map (probe_event g) ks) (Rule x) = 0"
  "count_list (map (probe_event g) ks) (Write x) = 0"
  by (induction ks) (simp_all add: probe_event_def)

lemma in_tickD:
  assumes "in_tick f0 Q P g"
  shows "same_frame f0 g" "partly f0 g" "waiting f0 Q g" "finished f0 P g" "logged f0 g"
  using assms by (simp_all add: in_tick_def)

lemma keeps_refl: "keeps f0 g g"
  by (simp add: keeps_def)

lemma keeps_trans: "keeps f0 g g' \<Longrightarrow> keeps f0 g' g'' \<Longrightarrow> keeps f0 g g''"
  by (simp add: keeps_def)

lemma covered_keeps: "covered f0 g ks \<Longrightarrow> keeps f0 g g' \<Longrightarrow> covered f0 g' ks"
  by (simp add: covered_def keeps_def)

lemma finished_keeps: "finished f0 P g \<Longrightarrow> keeps f0 g g' \<Longrightarrow> finished f0 P g'"
  by (auto simp add: finished_def keeps_def covered_def)

lemma updateCell_in_tick:
  assumes wf0: "wf f0" and st: "settled f0" and inv: "in_tick f0 Q P g"
    and cur: "idx g = ucast k" and on: "\<not> off_grid f0 k"
    and q: "cells f0 ! unat k = Alive \<longrightarrow> k \<in> Q"
    and vis: "cells f0 ! unat k = Dead
      \<longrightarrow> cells g ! unat k AND (Alive OR DeadVisited) = Dead"
  shows "\<exists>g'. updateCell g = Inr g' \<and> in_tick f0 Q P g' \<and> idx g' = idx g
           \<and> evaluated f0 g' k \<and> keeps f0 g g'"
proof -
  note sf = in_tickD(1) [OF inv] and pa = in_tickD(2) [OF inv] and wa = in_tickD(3) [OF inv]
    and fi = in_tickD(4) [OF inv] and lo = in_tickD(5) [OF inv]
  have wfg: "wf g" by (rule same_frame_wf [OF wf0 sf])
  have len0: "unat j < length (cells g)" if "\<not> off_grid f0 j" for j
    using that wf0 sf by (simp add: on_grid_iff_unat same_frame_def)
  have cok: "cursor_ok g"
    using len0 [OF on] by (simp add: cursor_ok_def cur)
  have ky: "key g = k" by (simp add: key_def cur ucast_up_down)
  have cnt: "count_alive g k = count_alive f0 k"
    by (rule count_alive_kept [OF sf pa])
  have tgt: "next_state (cells g ! unat k) (count_alive f0 k) = target f0 k"
    using pa on by (auto simp add: partly_def evaluated_def target_def next_state_idem)
  define g' where "g' = updated g"
  have run: "updateCell g = Inr g'"
    unfolding g'_def by (rule updateCell_eq [OF wfg cok])
  have cells': "cells g' = (cells g)[unat k := target f0 k]"
    by (simp add: g'_def updated_def Let_def cur ky cnt tgt)
  have trace': "trace g' = trace g @ (Rule (ucast k) # map (probe_event g) (walk k)
      @ (if target f0 k = cells g ! unat k then [] else [Write (ucast k)]))"
    by (simp add: g'_def updated_def Let_def cur ky cnt tgt)
  have idx': "idx g' = idx g"
    by (simp add: g'_def updated_def Let_def)
  have sf': "same_frame f0 g'"
    using sf by (simp add: same_frame_def g'_def updated_def Let_def)
  have nth': "cells g' ! unat j = (if j = k then target f0 k else cells g ! unat j)"
    if "\<not> off_grid f0 j" for j
    using len0 [OF that] len0 [OF on]
    by (simp add: cells' nth_list_update word_unat_eq_iff)
  have ev: "evaluated f0 g' k"
    using nth' [OF on] by (simp add: evaluated_def)
  have ke: "keeps f0 g g'"
    by (simp add: keeps_def evaluated_def nth')
  have pa': "partly f0 g'"
    using pa by (simp add: partly_def evaluated_def nth')
  have wa': "waiting f0 Q g'"
    using wa q by (auto simp add: waiting_def nth')
  have fi': "finished f0 P g'"
    by (rule finished_keeps [OF fi ke])
  have lo': "logged f0 g'"
  proof -
    from lo obtain tr where tr: "trace g = trace f0 @ tr"
      and ta: "\<And>j. \<not> off_grid f0 j \<Longrightarrow> tally f0 g tr j"
      by (auto simp add: logged_def)
    let ?new = "Rule (ucast k) # map (probe_event g) (walk k)
      @ (if target f0 k = cells g ! unat k then [] else [Write (ucast k)])"
    have t: "trace g' = trace f0 @ (tr @ ?new)"
      by (simp add: trace' tr)
    have "tally f0 g' (tr @ ?new) j" if j: "\<not> off_grid f0 j" for j
    proof (cases "j = k")
      case False
      then have "count_list ?new (Write (ucast j)) = 0" "count_list ?new (Rule (ucast j)) = 0"
        by simp_all
      with ta [OF j] False show ?thesis
        by (simp add: tally_def nth' [OF j])
    next
      case True
      have new: "cells g' ! unat k = target f0 k"
        using nth' [OF on] by simp
      have old: "tally f0 g tr k" by (rule ta [OF on])
      have "tally f0 g' (tr @ ?new) k"
      proof (cases "cells f0 ! unat k = Dead")
        case False
        with old show ?thesis by (simp add: tally_def)
      next
        case c0k: True
        from target_cases [OF wf0 st on] c0k
        have tk: "target f0 k = Birthing \<or> target f0 k = DeadVisited"
          by (simp add: Cell_defs)
        then have nd: "target f0 k \<noteq> Dead" by (auto simp add: Cell_defs)
        from vis c0k have m: "cells g ! unat k AND (Alive OR DeadVisited) = Dead" by simp
        from pa on c0k have "cells g ! unat k = Dead \<or> cells g ! unat k = target f0 k"
          by (auto simp add: partly_def evaluated_def)
        then show ?thesis
        proof
          assume d: "cells g ! unat k = Dead"
          with nd have "target f0 k \<noteq> cells g ! unat k" by simp
          with old d nd show ?thesis
            by (simp add: tally_def c0k new)
        next
          assume e: "cells g ! unat k = target f0 k"
          with m tk masked_cases(5) have "target f0 k = Birthing" by auto
          then have "(if count_alive f0 k = 3 then Birthing else DeadVisited) = Birthing"
            using c0k by (simp add: target_def next_state_Dead)
          then have "count_alive f0 k = 3"
            by (cases "count_alive f0 k = 3") (simp_all add: Cell_defs)
          with old e nd show ?thesis
            by (simp add: tally_def c0k new)
        qed
      qed
      then show ?thesis unfolding True .
    qed
    with t show ?thesis
      unfolding logged_def by blast
  qed
  from run sf' pa' wa' fi' lo' idx' ev ke show ?thesis
    by (auto simp add: in_tick_def)
qed

lemma in_tick_landing:
  assumes "in_tick f0 Q P g"
  shows "in_tick f0 Q P (record_event (probe_event g k) (g\<lparr>idx := i\<rparr>))"
proof -
  note lo = in_tickD(5) [OF assms]
  let ?g = "record_event (probe_event g k) (g\<lparr>idx := i\<rparr>)"
  from lo obtain tr where tr: "trace g = trace f0 @ tr"
    and cnt: "\<forall>k. \<not> off_grid f0 k \<longrightarrow> tally f0 g tr k"
    unfolding logged_def by blast
  have "trace ?g = trace f0 @ (tr @ [probe_event g k])"
    by (simp add: tr)
  moreover have "count_list (tr @ [probe_event g k]) (Write x) = count_list tr (Write x)"
    "count_list (tr @ [probe_event g k]) (Rule x) = count_list tr (Rule x)" for x
    by (simp_all add: probe_event_def)
  then have "tally f0 ?g (tr @ [probe_event g k]) j = tally f0 g tr j" for j
    by (simp add: tally_def)
  ultimately have "logged f0 ?g"
    unfolding logged_def using cnt by (intro exI [of _ "tr @ [probe_event g k]"]) simp
  then show ?thesis
    using assms
    by (simp add: in_tick_def same_frame_def partly_def waiting_def finished_def
        covered_def evaluated_def)
qed

lemma visit_in_tick:
  assumes wf0: "wf f0" and st: "settled f0" and inv: "in_tick f0 Q P g"
    and step: "\<And>h. wf h \<Longrightarrow>
      step (Alive OR DeadVisited) h = Inr (landing (Alive OR DeadVisited) (kstep (key h)) h)"
    and cov: "covered f0 g ks" and a: "\<not> off_grid f0 a" "evaluated f0 g a"
  shows "\<exists>g'. visit step g = Inr g' \<and> in_tick f0 Q P g' \<and> key g' = kstep (key g)
           \<and> covered f0 g' (ks @ [kstep (key g)]) \<and> evaluated f0 g' a"
proof -
  note sf = in_tickD(1) [OF inv] and pa = in_tickD(2) [OF inv]
  let ?m = "Alive OR DeadVisited"
  let ?k = "kstep (key g)"
  let ?g1 = "record_event (probe_event g ?k) (g\<lparr>idx := ucast ?k\<rparr>)"
  have wfg: "wf g" by (rule same_frame_wf [OF wf0 sf])
  have og: "off_grid g = off_grid f0" by (rule same_frame_off_grid [OF sf])
  have inv1: "in_tick f0 Q P ?g1" by (rule in_tick_landing [OF inv])
  have ev1: "evaluated f0 ?g1 j = evaluated f0 g j" for j
    by (simp add: evaluated_def)
  have run: "visit step g = (if probe g ?k AND ?m = Dead then updateCell ?g1 else Inr ?g1)"
    by (simp add: visit_def step [OF wfg] landing_def)
  show ?thesis
  proof (cases "probe g ?k AND ?m = Dead")
    case True
    then have on: "\<not> off_grid f0 ?k"
      using masked_cases(5) by (auto simp add: probe_def og)
    with True have "cells g ! unat ?k AND ?m = Dead"
      by (simp add: probe_def og)
    then have "cells g ! unat ?k AND 1 = 0" by (rule masked_low_bit)
    then have "cells f0 ! unat ?k AND 1 = 0"
      using low_bit_kept [OF pa on] by simp
    then have na: "cells f0 ! unat ?k \<noteq> Alive" by (auto simp add: Cell_defs)
    from \<open>cells g ! unat ?k AND ?m = Dead\<close>
    have vis: "cells f0 ! unat ?k = Dead \<longrightarrow> cells ?g1 ! unat ?k AND ?m = Dead" by simp
    from updateCell_in_tick [OF wf0 st inv1 _ on _ vis] na
    obtain g' where g': "updateCell ?g1 = Inr g'" "in_tick f0 Q P g'" "idx g' = idx ?g1"
      "evaluated f0 g' ?k" "keeps f0 ?g1 g'"
      by auto
    from g'(5) have ke: "keeps f0 g g'" by (simp add: keeps_def ev1)
    have "covered f0 g' (ks @ [?k])"
      using covered_keeps [OF cov ke] g'(4) by (simp add: covered_def)
    moreover have "evaluated f0 g' a" using ke a by (simp add: keeps_def)
    moreover have "key g' = ?k" using g'(3) by (simp add: key_def ucast_up_down)
    ultimately show ?thesis using run True g'(1,2) by simp
  next
    case False
    have "evaluated f0 g ?k" if on: "\<not> off_grid f0 ?k" and d: "cells f0 ! unat ?k = Dead"
    proof -
      from pa on have "cells g ! unat ?k = cells f0 ! unat ?k \<or> evaluated f0 g ?k"
        by (simp add: partly_def)
      moreover have "cells g ! unat ?k \<noteq> Dead"
        using False on masked_cases(1) by (auto simp add: probe_def og)
      ultimately show ?thesis using d by auto
    qed
    then have "covered f0 ?g1 (ks @ [?k])"
      using cov by (auto simp add: covered_def ev1)
    moreover have "evaluated f0 ?g1 a" using a by (simp add: ev1)
    ultimately show ?thesis using run False inv1 by simp
  qed
qed

lemmas step_eqs = up_eq left_eq down_eq right_eq

lemma in_tick_idx_update [simp]: "in_tick f0 Q P (g\<lparr>idx := i\<rparr>) = in_tick f0 Q P g"
  by (simp add: in_tick_def same_frame_def partly_def waiting_def finished_def
      covered_def evaluated_def logged_def tally_def)

lemma in_tick_more_waiting:
  assumes "in_tick f0 Q P g" and "Q \<subseteq> Q'"
  shows "in_tick f0 Q' P g"
  using assms by (auto simp add: in_tick_def waiting_def)

lemma in_tick_insert_finished:
  assumes "in_tick f0 Q P g"
    and "cells f0 ! unat k = Alive \<longrightarrow> evaluated f0 g k \<and> covered f0 g (walk k)"
  shows "in_tick f0 Q (insert k P) g"
  using assms by (auto simp add: in_tick_def finished_def)

lemma wf_length_le: "wf f \<Longrightarrow> length (cells f) \<le> 2 ^ 24"
proof -
  assume "wf f"
  then have "length (cells f) = 2 ^ (2 * unat (n_bits f))" "2 * unat (n_bits f) \<le> 24"
    by (simp_all add: wf_def)
  then show ?thesis
    by (metis one_le_numeral power_increasing)
qed

lemma index_key:
  assumes "wf f" and "unat (i :: 64 word) < length (cells f)"
  shows "unat (ucast i :: 32 word) = unat i" "(ucast (ucast i :: 32 word) :: 64 word) = i"
    "\<not> off_grid f (ucast i)"
proof -
  from wf_length_le [OF assms(1)] assms(2) have "unat i < 2 ^ 24" by simp
  then have "unat i < 2 ^ 32" by simp
  then show u: "unat (ucast i :: 32 word) = unat i"
    by (simp add: unsigned_ucast_eq take_bit_nat_eq_self)
  then show "(ucast (ucast i :: 32 word) :: 64 word) = i"
    by (simp add: word_unat_eq_iff)
  from u assms show "\<not> off_grid f (ucast i)"
    by (simp add: on_grid_iff_unat)
qed

lemmas visit_up_in_tick = visit_in_tick [where step = up and kstep = key_up, OF _ _ _ up_eq]
lemmas visit_left_in_tick = visit_in_tick [where step = left and kstep = key_left, OF _ _ _ left_eq]
lemmas visit_down_in_tick = visit_in_tick [where step = down and kstep = key_down, OF _ _ _ down_eq]
lemmas visit_right_in_tick =
  visit_in_tick [where step = right and kstep = key_right, OF _ _ _ right_eq]

lemma evaluate_cell_in_tick:
  assumes wf0: "wf f0" and st: "settled f0" and inv: "in_tick f0 P P g"
    and i: "unat i < length (cells f0)"
  shows "\<exists>g'. evaluate_cell i g = Inr g'
           \<and> in_tick f0 (insert (ucast i) P) (insert (ucast i) P) g'"
proof -
  let ?k = "ucast i :: 32 word"
  let ?Q = "insert ?k P"
  note sf = in_tickD(1) [OF inv] and pa = in_tickD(2) [OF inv] and wa = in_tickD(3) [OF inv]
    and fi = in_tickD(4) [OF inv]
  note ik = index_key [OF wf0 i]
  have rd: "cell_at i g = Inr (cells g ! unat i)"
    using i sf by (simp add: cell_at_def same_frame_def)
  show ?thesis
  proof (cases "cells g ! unat i = Alive")
    case False
    have "cells f0 ! unat ?k = Alive \<longrightarrow> ?k \<in> P"
      using wa ik(3) False by (auto simp add: waiting_def ik(1))
    with fi have "cells f0 ! unat ?k = Alive \<longrightarrow> evaluated f0 g ?k \<and> covered f0 g (walk ?k)"
      using ik(3) by (auto simp add: finished_def)
    then have "in_tick f0 ?Q ?Q g"
      using in_tick_more_waiting [OF inv, of ?Q] by (intro in_tick_insert_finished) auto
    with False rd show ?thesis
      by (simp add: evaluate_cell_def)
  next
    case True
    have c0: "cells f0 ! unat ?k = Alive"
    proof -
      from pa ik(3) have "cells g ! unat ?k = cells f0 ! unat ?k \<or> cells g ! unat ?k = target f0 ?k"
        by (simp add: partly_def evaluated_def)
      with target_cases [OF wf0 st ik(3)] True show ?thesis
        by (auto simp add: ik(1) Cell_defs)
    qed
    let ?g0 = "g\<lparr>idx := i\<rparr>"
    have inv0: "in_tick f0 ?Q P ?g0"
      using in_tick_more_waiting [OF inv, of ?Q] by auto
    have vis0: "cells f0 ! unat ?k = Dead
        \<longrightarrow> cells ?g0 ! unat ?k AND (Alive OR DeadVisited) = Dead"
      by (simp add: c0 Cell_defs)
    from updateCell_in_tick [OF wf0 st inv0 _ ik(3) _ vis0]
    obtain g1 where g1: "updateCell ?g0 = Inr g1" "in_tick f0 ?Q P g1" "idx g1 = idx ?g0"
      "evaluated f0 g1 ?k"
      by (auto simp add: ik(2))
    have k1: "key g1 = ?k" using g1(3) by (simp add: key_def)
    have cv1: "covered f0 g1 []" by (simp add: covered_def)
    from visit_up_in_tick [OF wf0 st g1(2) _ cv1 ik(3) g1(4)]
    obtain g2 where g2: "visit up g1 = Inr g2" "in_tick f0 ?Q P g2" "key g2 = key_up (key g1)"
      "covered f0 g2 ([] @ [key_up (key g1)])" "evaluated f0 g2 ?k"
      by blast
    from visit_left_in_tick [OF wf0 st g2(2) _ g2(4) ik(3) g2(5)]
    obtain g3 where g3: "visit left g2 = Inr g3" "in_tick f0 ?Q P g3"
      "key g3 = key_left (key g2)"
      "covered f0 g3 (([] @ [key_up (key g1)]) @ [key_left (key g2)])" "evaluated f0 g3 ?k"
      by blast
    from visit_down_in_tick [OF wf0 st g3(2) _ g3(4) ik(3) g3(5)]
    obtain g4 where g4: "visit down g3 = Inr g4" "in_tick f0 ?Q P g4"
      "key g4 = key_down (key g3)"
      "covered f0 g4 ((([] @ [key_up (key g1)]) @ [key_left (key g2)]) @ [key_down (key g3)])"
      "evaluated f0 g4 ?k"
      by blast
    from visit_down_in_tick [OF wf0 st g4(2) _ g4(4) ik(3) g4(5)]
    obtain g5 where g5: "visit down g4 = Inr g5" "in_tick f0 ?Q P g5"
      "key g5 = key_down (key g4)"
      "covered f0 g5 (((([] @ [key_up (key g1)]) @ [key_left (key g2)]) @ [key_down (key g3)])
         @ [key_down (key g4)])"
      "evaluated f0 g5 ?k"
      by blast
    from visit_right_in_tick [OF wf0 st g5(2) _ g5(4) ik(3) g5(5)]
    obtain g6 where g6: "visit right g5 = Inr g6" "in_tick f0 ?Q P g6"
      "key g6 = key_right (key g5)"
      "covered f0 g6 ((((([] @ [key_up (key g1)]) @ [key_left (key g2)]) @ [key_down (key g3)])
         @ [key_down (key g4)]) @ [key_right (key g5)])"
      "evaluated f0 g6 ?k"
      by blast
    from visit_right_in_tick [OF wf0 st g6(2) _ g6(4) ik(3) g6(5)]
    obtain g7 where g7: "visit right g6 = Inr g7" "in_tick f0 ?Q P g7"
      "key g7 = key_right (key g6)"
      "covered f0 g7 (((((([] @ [key_up (key g1)]) @ [key_left (key g2)]) @ [key_down (key g3)])
         @ [key_down (key g4)]) @ [key_right (key g5)]) @ [key_right (key g6)])"
      "evaluated f0 g7 ?k"
      by blast
    from visit_up_in_tick [OF wf0 st g7(2) _ g7(4) ik(3) g7(5)]
    obtain g8 where g8: "visit up g7 = Inr g8" "in_tick f0 ?Q P g8"
      "key g8 = key_up (key g7)"
      "covered f0 g8 ((((((([] @ [key_up (key g1)]) @ [key_left (key g2)]) @ [key_down (key g3)])
         @ [key_down (key g4)]) @ [key_right (key g5)]) @ [key_right (key g6)])
         @ [key_up (key g7)])"
      "evaluated f0 g8 ?k"
      by blast
    from visit_up_in_tick [OF wf0 st g8(2) _ g8(4) ik(3) g8(5)]
    obtain g9 where g9: "visit up g8 = Inr g9" "in_tick f0 ?Q P g9"
      "covered f0 g9 (((((((([] @ [key_up (key g1)]) @ [key_left (key g2)]) @ [key_down (key g3)])
         @ [key_down (key g4)]) @ [key_right (key g5)]) @ [key_right (key g6)])
         @ [key_up (key g7)]) @ [key_up (key g8)])"
      "evaluated f0 g9 ?k"
      by blast
    from g9(3) have "covered f0 g9 (walk ?k)"
      by (simp add: walk_def Let_def k1 g2(3) g3(3) g4(3) g5(3) g6(3) g7(3) g8(3))
    with g9(2,4) have "in_tick f0 ?Q ?Q g9"
      by (intro in_tick_insert_finished) auto
    moreover have "evaluate_cell i g = Inr g9"
      using True rd g1(1) g2(1) g3(1) g4(1) g5(1) g6(1) g7(1) g8(1) g9(1)
      by (simp add: evaluate_cell_def)
    ultimately show ?thesis by blast
  qed
qed

lemma in_tick_start: "in_tick f0 {} {} f0"
  by (simp add: in_tick_def same_frame_def partly_def waiting_def finished_def logged_def
      tally_def)

lemma evaluate_in_order:
  assumes wf0: "wf f0" and st: "settled f0"
    and ks: "\<forall>i\<in>set ks. unat i < length (cells f0)"
  shows "\<exists>g. for_each ks evaluate_cell f0 = Inr g
           \<and> in_tick f0 (ucast ` set ks) (ucast ` set ks) g"
proof -
  let ?I = "\<lambda>(done :: 64 word list) g.
    in_tick f0 (ucast ` set done) (ucast ` set done) g"
  have "\<exists>g. for_each ks evaluate_cell f0 = Inr g \<and> ?I ks g"
  proof (rule for_each_invariant)
    show "?I [] f0" by (simp add: in_tick_start)
  next
    fix done' :: "64 word list" and i g
    assume "?I done' g" "i \<in> set ks"
    with evaluate_cell_in_tick [OF wf0 st, of "ucast ` set done'" g i] ks
    show "\<exists>g'. evaluate_cell i g = Inr g' \<and> ?I (done' @ [i]) g'"
      by auto
  qed
  then show ?thesis .
qed

subsection \<open>The commit pass\<close>

definition commit :: "8 word \<Rightarrow> 8 word" where
  "commit c =
     (if c = Birthing then Alive else if c = Dying \<or> c = DeadVisited then Dead else c)"

lemma commit_cell_eq:
  assumes "unat i < length (cells g)"
  shows "commit_cell i g = Inr (g\<lparr>cells := (cells g)[unat i := commit (cells g ! unat i)]\<rparr>)"
  using assms by (simp add: commit_cell_def cell_at_def set_cell_def commit_def)

lemma unat_of_nat_64: "j < 2 ^ 24 \<Longrightarrow> unat (of_nat j :: 64 word) = j"
proof -
  assume "j < 2 ^ 24"
  then have "j < 2 ^ 64" by simp
  then show ?thesis by (simp add: unat_of_nat take_bit_nat_eq_self)
qed

lemma commit_prefix:
  assumes "n \<le> length (cells g)" and "length (cells g) \<le> 2 ^ 24"
  shows "for_each (map of_nat [0..<n]) commit_cell g =
    Inr (g\<lparr>cells := map commit (take n (cells g)) @ drop n (cells g)\<rparr>)"
  using assms(1)
proof (induction n)
  case 0
  show ?case by simp
next
  case (Suc n)
  let ?cs = "cells g"
  let ?g = "g\<lparr>cells := map commit (take n ?cs) @ drop n ?cs\<rparr>"
  from Suc.prems have n: "n < length ?cs" by simp
  with assms(2) have u: "unat (of_nat n :: 64 word) = n"
    by (intro unat_of_nat_64) simp
  have nth: "(map commit (take n ?cs) @ drop n ?cs) ! n = ?cs ! n"
    using n by (simp add: nth_append)
  have upd: "(map commit (take n ?cs) @ drop n ?cs)[n := commit (?cs ! n)] =
      map commit (take (Suc n) ?cs) @ drop (Suc n) ?cs"
    using n
    by (simp add: list_update_append take_Suc_conv_app_nth Cons_nth_drop_Suc [symmetric])
  have "commit_cell (of_nat n) ?g = Inr (?g\<lparr>cells := (cells ?g)[n := commit (cells ?g ! n)]\<rparr>)"
    using commit_cell_eq [of "of_nat n" ?g] n by (simp add: u)
  then have "commit_cell (of_nat n) ?g =
      Inr (g\<lparr>cells := map commit (take (Suc n) ?cs) @ drop (Suc n) ?cs\<rparr>)"
    using nth upd by simp
  with Suc.IH n show ?case
    by (simp add: for_each_append)
qed

lemma commit_pass:
  assumes "wf g"
  shows "scan_grid commit_cell g = Inr (g\<lparr>cells := map commit (cells g)\<rparr>)"
proof -
  let ?n = "unat (n_bits g)"
  from assms have n: "?n \<le> 12" and fs: "fsize g = 2 ^ ?n"
    and len: "length (cells g) = 2 ^ (2 * ?n)"
    by (simp_all add: wf_def)
  have "unat (fsize g) = 2 ^ ?n"
    using n by (simp add: fs unat_pow2)
  then have "unat (fsize g) * unat (fsize g) = length (cells g)"
    by (simp add: len power2_eq_square [symmetric] power_mult [symmetric] mult.commute)
  then show ?thesis
    using commit_prefix [of "length (cells g)" g] wf_length_le [OF assms]
    by (simp add: scan_grid_flat)
qed

subsection \<open>What a finished evaluate pass leaves\<close>

lemma word8_outside_2_3: "(nb :: 8 word) < 2 \<or> 3 < nb \<longleftrightarrow> nb \<noteq> 2 \<and> nb \<noteq> 3"
proof -
  have "nb < 2 \<or> 3 < nb \<longleftrightarrow> unat nb < 2 \<or> 3 < unat nb"
    by (simp add: word_less_nat_alt)
  also have "\<dots> \<longleftrightarrow> unat nb \<noteq> 2 \<and> unat nb \<noteq> 3" by arith
  also have "\<dots> \<longleftrightarrow> nb \<noteq> 2 \<and> nb \<noteq> 3"
    by (simp add: word_unat_eq_iff)
  finally show ?thesis .
qed

lemma sum_list_all_zero:
  fixes f :: "'a \<Rightarrow> 8 word"
  shows "(\<forall>x\<in>set xs. f x = 0) \<Longrightarrow> sum_list (map f xs) = 0"
  by (induction xs) simp_all

lemma count_alive_nonzero:
  assumes "count_alive f k \<noteq> 0"
  shows "\<exists>j\<in>set (walk k). \<not> off_grid f j \<and> cells f ! unat j AND 1 \<noteq> 0"
proof (rule ccontr)
  assume "\<not> ?thesis"
  then have "\<forall>j\<in>set (walk k). probe f j AND Alive = 0"
    by (auto simp add: probe_def Cell_defs)
  then have "count_alive f k = 0"
    unfolding count_alive_def by (rule sum_list_all_zero)
  with assms show False by simp
qed

definition offsets :: "(16 word \<times> 16 word) list" where
  "offsets = [(0, - 1), (- 1, - 1), (- 1, 0), (- 1, 1), (0, 1), (1, 1), (1, 0), (1, - 1)]"

lemma moore_offsets: "moore x y = map (\<lambda>(dx, dy). (x + dx, y + dy)) offsets"
  by (simp add: moore_def offsets_def)

lemma offsets_neg: "(dx, dy) \<in> set offsets \<Longrightarrow> (- dx, - dy) \<in> set offsets"
  unfolding offsets_def set_simps insert_iff empty_iff prod.inject
  by (elim disjE conjE) simp_all

lemma moore_sym: "(a, b) \<in> set (moore x y) \<Longrightarrow> (x, y) \<in> set (moore a b)"
proof -
  assume "(a, b) \<in> set (moore x y)"
  then obtain dx dy where d: "(dx, dy) \<in> set offsets" "a = x + dx" "b = y + dy"
    unfolding moore_offsets by auto
  from offsets_neg [OF d(1)] have "(a + - dx, b + - dy) \<in> set (moore a b)"
    unfolding moore_offsets by (auto simp add: image_iff intro!: bexI [of _ "(- dx, - dy)"])
  with d show ?thesis by simp
qed

lemma walk_sym:
  assumes "j \<in> set (walk k)"
  shows "k \<in> set (walk j)"
proof -
  let ?x = "decodeX k" and ?y = "decodeY k" and ?a = "decodeX j" and ?b = "decodeY j"
  from assms have "interleaveXY ?a ?b \<in> set (walk (interleaveXY ?x ?y))" by simp
  then have "(?a, ?b) \<in> set (moore ?x ?y)"
    unfolding walk_interleaveXY by (auto simp add: image_iff)
  then have "(?x, ?y) \<in> set (moore ?a ?b)" by (rule moore_sym)
  then have "interleaveXY ?x ?y \<in> set (walk (interleaveXY ?a ?b))"
    unfolding walk_interleaveXY by (auto simp add: image_iff intro!: bexI [of _ "(?x, ?y)"])
  then show ?thesis by simp
qed

text \<open>The rule of the game on one cell, from the state and the count the tick began with.\<close>

definition lives :: "8 word \<Rightarrow> 8 word \<Rightarrow> bool" where
  "lives c nb \<longleftrightarrow> c = Alive \<and> (nb = 2 \<or> nb = 3) \<or> c = Dead \<and> nb = 3"

lemma commit_simps [simp]:
  "commit Dead = Dead" "commit Alive = Alive" "commit Dying = Dead"
  "commit Birthing = Alive" "commit DeadVisited = Dead"
  by (simp_all add: commit_def Cell_defs)

lemma Alive_neq_Dead [simp]: "Alive \<noteq> Dead" "Dead \<noteq> Alive"
  by (simp_all add: Cell_defs)

lemma committed_key:
  assumes wf0: "wf f0" and st: "settled f0" and inv: "in_tick f0 Q P g"
    and all: "\<forall>k. \<not> off_grid f0 k \<longrightarrow> cells f0 ! unat k = Alive \<longrightarrow> k \<in> P"
    and on: "\<not> off_grid f0 k"
  shows "commit (cells g ! unat k) =
    (if lives (cells f0 ! unat k) (count_alive f0 k) then Alive else Dead)"
proof -
  note pa = in_tickD(2) [OF inv] and fi = in_tickD(4) [OF inv]
  from settled_cell [OF wf0 st on] show ?thesis
  proof
    assume a: "cells f0 ! unat k = Alive"
    with all on have "k \<in> P" by simp
    with fi on a have "cells g ! unat k = target f0 k"
      by (simp add: finished_def evaluated_def)
    then have "cells g ! unat k =
        (if count_alive f0 k = 2 \<or> count_alive f0 k = 3 then Alive else Dying)"
      using a word8_outside_2_3 [of "count_alive f0 k"]
      by (simp add: target_def next_state_Alive)
    then show ?thesis
      using a by (simp add: lives_def)
  next
    assume d: "cells f0 ! unat k = Dead"
    from pa on d have now: "cells g ! unat k = Dead \<or> cells g ! unat k = target f0 k"
      by (auto simp add: partly_def evaluated_def)
    show ?thesis
    proof (cases "count_alive f0 k = 3")
      case False
      with now d show ?thesis
        by (auto simp add: target_def next_state_Dead lives_def)
    next
      case True
      then have "count_alive f0 k \<noteq> 0" by simp
      from count_alive_nonzero [OF this]
      obtain j where j: "j \<in> set (walk k)" "\<not> off_grid f0 j" "cells f0 ! unat j AND 1 \<noteq> 0"
        by blast
      from settled_cell [OF wf0 st j(2)] j(3) have ja: "cells f0 ! unat j = Alive"
        by (auto simp add: Cell_defs)
      with all j(2) have "j \<in> P" by simp
      with fi j(2) ja have "covered f0 g (walk j)"
        by (simp add: finished_def)
      moreover have "k \<in> set (walk j)" by (rule walk_sym [OF j(1)])
      ultimately have "cells g ! unat k = target f0 k"
        using on d by (simp add: covered_def evaluated_def)
      with True d show ?thesis
        by (simp add: target_def next_state_Dead lives_def)
    qed
  qed
qed

subsection \<open>The whole tick\<close>

text \<open>The evaluate pass over the indices \<open>ks\<close>, in that order, and then the commit pass.\<close>

definition tick_in_order :: "64 word list \<Rightarrow> GameField \<Rightarrow> error + GameField" where
  "tick_in_order ks f = seq (for_each ks evaluate_cell f) (scan_grid commit_cell)"

lemma simulationTick_in_order:
  "simulationTick f =
     tick_in_order (map of_nat [0..<unat (fsize f) * unat (fsize f)]) f"
  by (simp add: simulationTick_def tick_in_order_def scan_grid_flat)

definition next_cells :: "GameField \<Rightarrow> 8 word list" where
  "next_cells f =
     map (\<lambda>i. if lives (cells f ! i) (count_alive f (of_nat i)) then Alive else Dead)
       [0..<length (cells f)]"

lemma unat_of_nat_32: "j < 2 ^ 24 \<Longrightarrow> unat (of_nat j :: 32 word) = j"
proof -
  assume "j < 2 ^ 24"
  then have "j < 2 ^ 32" by simp
  then show ?thesis by (simp add: unat_of_nat take_bit_nat_eq_self)
qed

lemma wf_side:
  assumes "wf f"
  shows "unat (fsize f) * unat (fsize f) = length (cells f)"
proof -
  let ?n = "unat (n_bits f)"
  from assms have n: "?n \<le> 12" and fs: "fsize f = 2 ^ ?n"
    and len: "length (cells f) = 2 ^ (2 * ?n)"
    by (simp_all add: wf_def)
  have "unat (fsize f) = 2 ^ ?n"
    using n by (simp add: fs unat_pow2)
  then show ?thesis
    by (simp add: len power2_eq_square [symmetric] power_mult [symmetric] mult.commute)
qed

lemma tick_in_order_cells:
  assumes wf0: "wf f" and st: "settled f"
    and ks: "\<forall>i\<in>set ks. unat i < length (cells f)"
    and all: "\<forall>i. unat i < length (cells f) \<longrightarrow> cells f ! unat i = Alive \<longrightarrow> i \<in> set ks"
  shows "\<exists>g. tick_in_order ks f = Inr g \<and> cells g = next_cells f \<and> same_frame f g"
proof -
  from evaluate_in_order [OF wf0 st ks]
  obtain g1 where g1: "for_each ks evaluate_cell f = Inr g1"
    "in_tick f (ucast ` set ks) (ucast ` set ks) g1"
    by blast
  note sf = in_tickD(1) [OF g1(2)]
  have wf1: "wf g1" by (rule same_frame_wf [OF wf0 sf])
  let ?g2 = "g1\<lparr>cells := map commit (cells g1)\<rparr>"
  have run: "tick_in_order ks f = Inr ?g2"
    by (simp add: tick_in_order_def g1(1) commit_pass [OF wf1])
  have processed: "\<forall>k. \<not> off_grid f k \<longrightarrow> cells f ! unat k = Alive \<longrightarrow> k \<in> ucast ` set ks"
  proof (intro allI impI)
    fix k :: "32 word"
    assume on: "\<not> off_grid f k" and a: "cells f ! unat k = Alive"
    then have "unat (ucast k :: 64 word) < length (cells f)"
      using wf0 by (simp add: on_grid_iff_unat)
    with all a have "(ucast k :: 64 word) \<in> set ks" by simp
    then have "ucast (ucast k :: 64 word) \<in> (ucast ` set ks :: 32 word set)"
      by (rule imageI)
    then show "k \<in> ucast ` set ks" by (simp add: ucast_up_down)
  qed
  have len: "length (cells g1) = length (cells f)"
    using sf by (simp add: same_frame_def)
  have "cells ?g2 = next_cells f"
  proof (rule nth_equalityI)
    show "length (cells ?g2) = length (next_cells f)"
      by (simp add: next_cells_def len)
  next
    fix i assume "i < length (cells ?g2)"
    then have i: "i < length (cells f)" by (simp add: len)
    with wf_length_le [OF wf0] have u: "unat (of_nat i :: 32 word) = i"
      by (intro unat_of_nat_32) simp
    with i have on: "\<not> off_grid f (of_nat i)"
      using wf0 by (simp add: on_grid_iff_unat)
    from committed_key [OF wf0 st g1(2) processed on] i
    show "cells ?g2 ! i = next_cells f ! i"
      by (simp add: u next_cells_def len)
  qed
  moreover have "same_frame f ?g2"
    using sf by (simp add: same_frame_def)
  ultimately show ?thesis using run by blast
qed

section \<open>The Game of Life on the bounded board\<close>

text \<open>
  The rule as the specification words it, on integer coordinates: the board is
  \<open>0 \<le> x, y < N\<close>, the cell \<open>(x, y)\<close> is the array slot \<^verbatim>\<open>setCursor(x, y)\<close> selects,
  and a neighbour outside the board counts as dead.
\<close>

definition side :: "GameField \<Rightarrow> int" where
  "side f = uint (fsize f)"

definition alive_at :: "GameField \<Rightarrow> int \<Rightarrow> int \<Rightarrow> bool" where
  "alive_at f x y \<longleftrightarrow>
     0 \<le> x \<and> x < side f \<and> 0 \<le> y \<and> y < side f \<and>
     cells f ! unat (interleaveXY (word_of_int x) (word_of_int y)) = Alive"

definition int_offsets :: "(int \<times> int) list" where
  "int_offsets = [(0, - 1), (- 1, - 1), (- 1, 0), (- 1, 1), (0, 1), (1, 1), (1, 0), (1, - 1)]"

definition life_neighbours :: "GameField \<Rightarrow> int \<Rightarrow> int \<Rightarrow> nat" where
  "life_neighbours f x y =
     length (filter (\<lambda>(dx, dy). alive_at f (x + dx) (y + dy)) int_offsets)"

definition life_next :: "GameField \<Rightarrow> int \<Rightarrow> int \<Rightarrow> bool" where
  "life_next f x y \<longleftrightarrow>
     alive_at f x y \<and> (life_neighbours f x y = 2 \<or> life_neighbours f x y = 3)
     \<or> \<not> alive_at f x y \<and> life_neighbours f x y = 3"

lemma wf_side_pow: "wf f \<Longrightarrow> side f = 2 ^ unat (n_bits f)"
proof -
  assume w: "wf f"
  then have "unat (n_bits f) < 64" by (simp add: wf_def)
  then have "unat (2 ^ unat (n_bits f) :: 64 word) = 2 ^ unat (n_bits f)"
    by (simp add: unat_pow2)
  then have "uint (2 ^ unat (n_bits f) :: 64 word) = 2 ^ unat (n_bits f)"
    by (metis of_nat_numeral of_nat_power uint_nat)
  with w show ?thesis by (simp add: side_def wf_def)
qed

lemma coordinate_on_board:
  assumes w: "wf f" and a: "- 1 \<le> a" "a \<le> side f"
  shows "(word_of_int a :: 16 word) < 2 ^ unat (n_bits f) \<longleftrightarrow> 0 \<le> a \<and> a < side f"
proof -
  let ?n = "unat (n_bits f)"
  from w have n: "?n \<le> 12" by (simp add: wf_def)
  have s: "side f = 2 ^ ?n" by (rule wf_side_pow [OF w])
  have p: "unat (2 ^ ?n :: 16 word) = 2 ^ ?n"
    using n by (simp add: unat_pow2)
  show ?thesis
  proof (cases "a = - 1")
    case True
    have "(2 ^ ?n :: 16 word) \<le> - 1" by simp
    then have "\<not> (- 1 :: 16 word) < 2 ^ ?n" by (simp add: not_less)
    with True show ?thesis by simp
  next
    case False
    with a have a0: "0 \<le> a" by simp
    have "(2 :: int) ^ ?n \<le> 2 ^ 12" using n by (intro power_increasing) simp_all
    with a s have "a < 2 ^ 16" by simp
    with a0 have "unat (word_of_int a :: 16 word) = nat a"
      by (simp add: unat_eq_nat_uint uint_word_of_int take_bit_eq_mod)
    then have "(word_of_int a :: 16 word) < 2 ^ ?n \<longleftrightarrow> nat a < 2 ^ ?n"
      by (simp add: word_less_nat_alt p)
    also have "\<dots> \<longleftrightarrow> a < 2 ^ ?n" using a0 by (simp add: nat_less_iff)
    finally show ?thesis using a0 s by simp
  qed
qed

lemma sum_list_indicator:
  "sum_list (map (\<lambda>p. if P p then 1 else 0) xs) = (of_nat (length (filter P xs)) :: 8 word)"
  by (induction xs) simp_all

lemma offsets_int: "offsets = map (\<lambda>(dx, dy). (word_of_int dx, word_of_int dy)) int_offsets"
  by (simp add: offsets_def int_offsets_def)

lemma int_offsets_range:
  "(dx, dy) \<in> set int_offsets \<Longrightarrow> - 1 \<le> dx \<and> dx \<le> 1 \<and> - 1 \<le> dy \<and> dy \<le> 1"
  by (auto simp add: int_offsets_def)

lemma probe_neighbour:
  assumes w: "wf f" and st: "settled f"
    and x: "0 \<le> x" "x < side f" and y: "0 \<le> y" "y < side f"
    and d: "(dx, dy) \<in> set int_offsets"
  shows "probe f (interleaveXY (word_of_int x + word_of_int dx) (word_of_int y + word_of_int dy))
           AND Alive = (if alive_at f (x + dx) (y + dy) then 1 else 0)"
proof -
  let ?a = "x + dx" and ?b = "y + dy"
  let ?k = "interleaveXY (word_of_int ?a) (word_of_int ?b)"
  from int_offsets_range [OF d] x y
  have r: "- 1 \<le> ?a" "?a \<le> side f" "- 1 \<le> ?b" "?b \<le> side f" by simp_all
  have on: "\<not> off_grid f ?k \<longleftrightarrow> 0 \<le> ?a \<and> ?a < side f \<and> 0 \<le> ?b \<and> ?b < side f"
    using coordinate_on_board [OF w r(1,2)] coordinate_on_board [OF w r(3,4)]
    by (auto simp add: off_grid_interleaveXY [OF w] on_board_def)
  have "probe f ?k AND Alive = (if alive_at f ?a ?b then 1 else 0)"
  proof (cases "off_grid f ?k")
    case True
    with on have "\<not> alive_at f ?a ?b" by (auto simp add: alive_at_def)
    with True show ?thesis by (simp add: probe_def Cell_defs)
  next
    case False
    from settled_cell [OF w st False] False on show ?thesis
      by (auto simp add: probe_def alive_at_def Cell_defs)
  qed
  then show ?thesis by simp
qed

lemma count_alive_neighbours:
  assumes w: "wf f" and st: "settled f"
    and x: "0 \<le> x" "x < side f" and y: "0 \<le> y" "y < side f"
  shows "count_alive f (interleaveXY (word_of_int x) (word_of_int y))
           = of_nat (life_neighbours f x y)"
proof -
  have "count_alive f (interleaveXY (word_of_int x) (word_of_int y)) =
      sum_list (map (\<lambda>(dx, dy).
        probe f (interleaveXY (word_of_int x + word_of_int dx) (word_of_int y + word_of_int dy))
          AND Alive) int_offsets)"
    by (simp add: count_alive_def walk_interleaveXY moore_offsets offsets_int o_def
        case_prod_unfold)
  also have "\<dots> = sum_list (map (\<lambda>p. if (\<lambda>(dx, dy). alive_at f (x + dx) (y + dy)) p
                                       then 1 else 0) int_offsets)"
    by (rule arg_cong [where f = sum_list], rule map_cong [OF refl])
      (auto simp add: probe_neighbour [OF w st x y])
  also have "\<dots> = of_nat (life_neighbours f x y)"
    unfolding life_neighbours_def by (rule sum_list_indicator)
  finally show ?thesis .
qed

lemma life_neighbours_le: "life_neighbours f x y \<le> 8"
proof -
  have "life_neighbours f x y \<le> length int_offsets"
    unfolding life_neighbours_def by (rule length_filter_le)
  then show ?thesis by (simp add: int_offsets_def)
qed

lemma small_of_nat_eq:
  assumes "n \<le> 8" and "m \<le> 8"
  shows "(of_nat n :: 8 word) = of_nat m \<longleftrightarrow> n = m"
proof -
  from assms have "n < 2 ^ 8" "m < 2 ^ 8" by simp_all
  then have "unat (of_nat n :: 8 word) = n" "unat (of_nat m :: 8 word) = m"
    by (simp_all add: unat_of_nat take_bit_nat_eq_self)
  then show ?thesis by (metis)
qed

lemma lives_life_next:
  assumes w: "wf f" and st: "settled f"
    and x: "0 \<le> x" "x < side f" and y: "0 \<le> y" "y < side f"
  shows "lives (cells f ! unat (interleaveXY (word_of_int x) (word_of_int y)))
           (count_alive f (interleaveXY (word_of_int x) (word_of_int y)))
         \<longleftrightarrow> life_next f x y"
proof -
  let ?k = "interleaveXY (word_of_int x) (word_of_int y)"
  let ?n = "life_neighbours f x y"
  have on: "\<not> off_grid f ?k"
    using coordinate_on_board [OF w, of x] coordinate_on_board [OF w, of y] x y
    by (simp add: off_grid_interleaveXY [OF w] on_board_def)
  have a: "alive_at f x y \<longleftrightarrow> cells f ! unat ?k = Alive"
    using x y by (simp add: alive_at_def)
  have d: "\<not> alive_at f x y \<longleftrightarrow> cells f ! unat ?k = Dead"
    using settled_cell [OF w st on] a by auto
  have c: "count_alive f ?k = of_nat ?n"
    by (rule count_alive_neighbours [OF w st x y])
  have "(of_nat ?n :: 8 word) = of_nat 2 \<longleftrightarrow> ?n = 2" "(of_nat ?n :: 8 word) = of_nat 3 \<longleftrightarrow> ?n = 3"
    using life_neighbours_le [of f x y] by (simp_all only: small_of_nat_eq)
  then have "(of_nat ?n :: 8 word) = 2 \<longleftrightarrow> ?n = 2" "(of_nat ?n :: 8 word) = 3 \<longleftrightarrow> ?n = 3"
    by simp_all
  then show ?thesis
    unfolding lives_def life_next_def c a [symmetric] d [symmetric] by simp
qed

lemma source_order:
  assumes w: "wf f"
  shows "\<forall>i\<in>set (map of_nat [0..<unat (fsize f) * unat (fsize f)] :: 64 word list).
           unat i < length (cells f)"
    and "\<forall>i :: 64 word. unat i < length (cells f)
           \<longrightarrow> i \<in> set (map of_nat [0..<unat (fsize f) * unat (fsize f)])"
proof -
  note len = wf_side [OF w] and le = wf_length_le [OF w]
  show "\<forall>i\<in>set (map of_nat [0..<unat (fsize f) * unat (fsize f)] :: 64 word list).
           unat i < length (cells f)"
  proof
    fix i :: "64 word"
    assume "i \<in> set (map of_nat [0..<unat (fsize f) * unat (fsize f)])"
    then obtain j where j: "j < length (cells f)" "i = of_nat j"
      by (auto simp add: len)
    with le have "unat (of_nat j :: 64 word) = j" by (intro unat_of_nat_64) simp
    with j show "unat i < length (cells f)" by simp
  qed
  show "\<forall>i :: 64 word. unat i < length (cells f)
           \<longrightarrow> i \<in> set (map of_nat [0..<unat (fsize f) * unat (fsize f)])"
  proof (intro allI impI)
    fix i :: "64 word"
    assume "unat i < length (cells f)"
    then have "unat i \<in> set [0..<unat (fsize f) * unat (fsize f)]" by (simp add: len)
    then have "of_nat (unat i) \<in> set (map of_nat [0..<unat (fsize f) * unat (fsize f)] :: 64 word list)"
      unfolding set_map by (rule imageI)
    then show "i \<in> set (map of_nat [0..<unat (fsize f) * unat (fsize f)])" by simp
  qed
qed

lemma settled_next_cells: "list_all (\<lambda>c. c = Dead \<or> c = Alive) (next_cells f)"
  by (simp add: next_cells_def list_all_length)

lemma alive_at_next_cells:
  assumes w: "wf f" and st: "settled f" and sf: "same_frame f g"
    and cs: "cells g = next_cells f"
  shows "alive_at g x y \<longleftrightarrow> 0 \<le> x \<and> x < side f \<and> 0 \<le> y \<and> y < side f \<and> life_next f x y"
proof (cases "0 \<le> x \<and> x < side f \<and> 0 \<le> y \<and> y < side f")
  case False
  with sf show ?thesis by (auto simp add: alive_at_def side_def same_frame_def)
next
  case True
  let ?k = "interleaveXY (word_of_int x) (word_of_int y)"
  have on: "\<not> off_grid f ?k"
    using coordinate_on_board [OF w, of x] coordinate_on_board [OF w, of y] True
    by (simp add: off_grid_interleaveXY [OF w] on_board_def)
  then have lt: "unat ?k < length (cells f)" using w by (simp add: on_grid_iff_unat)
  then have "next_cells f ! unat ?k =
      (if lives (cells f ! unat ?k) (count_alive f ?k) then Alive else Dead)"
    by (simp add: next_cells_def)
  then have "next_cells f ! unat ?k = Alive \<longleftrightarrow> life_next f x y"
    using lives_life_next [OF w st, of x y] True by simp
  with True sf show ?thesis
    by (simp add: alive_at_def cs side_def same_frame_def)
qed

text \<open>
  C1. On a grid whose cells are all \<open>Dead\<close> or \<open>Alive\<close>, \<^verbatim>\<open>simulationTick\<close> returns a
  grid of the same size whose cells are all \<open>Dead\<close> or \<open>Alive\<close>, and the cell \<open>(x, y)\<close>
  is \<open>Alive\<close> in it exactly when \<open>(x, y)\<close> is on the board and the rule of the game makes
  it alive: it was \<open>Alive\<close> with 2 or 3 alive neighbours, or not alive with exactly 3. The
  evaluate pass run over any list \<open>ks\<close> of array indices that holds the index of every
  \<open>Alive\<close> cell, in any order and with or without the others, gives the same cells.
\<close>

theorem simulationTick_life:
  assumes "wf f" and "settled f"
    and "\<forall>i\<in>set ks. unat i < length (cells f)"
    and "\<forall>i. unat i < length (cells f) \<longrightarrow> cells f ! unat i = Alive \<longrightarrow> i \<in> set ks"
  shows "\<exists>g g'. simulationTick f = Inr g \<and> tick_in_order ks f = Inr g' \<and> cells g' = cells g
           \<and> settled g \<and> side g = side f \<and> length (cells g) = length (cells f)
           \<and> (\<forall>x y. alive_at g x y \<longleftrightarrow>
                 0 \<le> x \<and> x < side f \<and> 0 \<le> y \<and> y < side f \<and> life_next f x y)"
proof -
  from tick_in_order_cells [OF assms(1,2) source_order(1) [OF assms(1)]]
    source_order(2) [OF assms(1)]
  obtain g where g: "simulationTick f = Inr g" "cells g = next_cells f" "same_frame f g"
    unfolding simulationTick_in_order by blast
  from tick_in_order_cells [OF assms]
  obtain g' where g': "tick_in_order ks f = Inr g'" "cells g' = next_cells f"
    by blast
  have "settled g"
    unfolding settled_def g(2) by (rule settled_next_cells)
  moreover have "side g = side f" "length (cells g) = length (cells f)"
    using g(3) by (simp_all add: same_frame_def side_def)
  moreover note alive_at_next_cells [OF assms(1,2) g(3,2)]
  ultimately show ?thesis using g(1,2) g' by auto
qed

lemma index_below_4:
  assumes "unat (i :: 64 word) < 4"
  shows "i = 0 \<or> i = 1 \<or> i = 2 \<or> i = 3"
proof -
  from assms have "unat i = unat (0 :: 64 word) \<or> unat i = unat (1 :: 64 word)
      \<or> unat i = unat (2 :: 64 word) \<or> unat i = unat (3 :: 64 word)"
    by simp arith
  then show ?thesis by (simp only: word_unat_eq_iff)
qed

theorem simulationTick_life_witness:
  "\<exists>g g'. simulationTick (grid_of 1 [1, 1, 1, 0] 0) = Inr g
      \<and> tick_in_order [2, 0, 1] (grid_of 1 [1, 1, 1, 0] 0) = Inr g' \<and> cells g' = cells g
      \<and> settled g \<and> side g = side (grid_of 1 [1, 1, 1, 0] 0)
      \<and> length (cells g) = length (cells (grid_of 1 [1, 1, 1, 0] 0))
      \<and> (\<forall>x y. alive_at g x y \<longleftrightarrow>
            0 \<le> x \<and> x < side (grid_of 1 [1, 1, 1, 0] 0) \<and> 0 \<le> y
            \<and> y < side (grid_of 1 [1, 1, 1, 0] 0) \<and> life_next (grid_of 1 [1, 1, 1, 0] 0) x y)"
proof -
  let ?f = "grid_of 1 [1, 1, 1, 0] 0"
  have w: "wf ?f" by (simp add: wf_def grid_of_def)
  have s: "settled ?f" by (simp add: settled_def grid_of_def Cell_defs)
  have k: "\<forall>i\<in>set [2, 0, 1 :: 64 word]. unat i < length (cells ?f)"
    by (simp add: grid_of_def)
  have a: "\<forall>i :: 64 word. unat i < length (cells ?f) \<longrightarrow> cells ?f ! unat i = Alive
      \<longrightarrow> i \<in> set [2, 0, 1]"
  proof (intro allI impI)
    fix i :: "64 word"
    assume "unat i < length (cells ?f)" and c: "cells ?f ! unat i = Alive"
    then have "i = 0 \<or> i = 1 \<or> i = 2 \<or> i = 3"
      by (intro index_below_4) (simp add: grid_of_def)
    with c show "i \<in> set [2, 0, 1]"
      by (auto simp add: grid_of_def Cell_defs)
  qed
  from simulationTick_life [OF w s k a] show ?thesis .
qed

section \<open>How often the rule is applied to a dead cell\<close>

lemmas run_simps =
  evaluate_cell_def commit_cell_def cell_at_def set_cell_def updateCell_def
  countAliveNeighbors_def visit_def
  up_def down_def left_def right_def record_event_def Let_def MASK_X_def MASK_Y_def
  Cell_defs word_le_nat_alt word_less_nat_alt

lemma upt_0_2: "[0..<2] = [0, Suc 0]"
  by (simp add: upt_rec)

text \<open>
  C2, as stated, fails. On the 2 by 2 grid with \<open>(0, 0)\<close>, \<open>(1, 0)\<close> and \<open>(0, 1)\<close>
  \<open>Alive\<close>, the \<open>Dead\<close> cell \<open>(1, 1)\<close>, array index 3, has three alive neighbours. The
  first visit makes it \<open>Birthing\<close>, which reads 0 under the mask
  \<open>Alive OR DeadVisited\<close>, so each of the other two alive cells applies
  \<^verbatim>\<open>updateCell\<close> to it again: three applications in one tick, one write.
\<close>

theorem rule_applied_again_counterexample:
  "\<exists>g. simulationTick (grid_of 1 [Alive, Alive, Alive, Dead] 0) = Inr g
     \<and> count_list (trace g) (Rule 3) = 3 \<and> count_list (trace g) (Write 3) = 1
     \<and> Birthing AND (Alive OR DeadVisited) = Dead"
proof -
  have "simulationTick (grid_of 1 [1, 1, 1, 0] 0) =
   Inr \<lparr>n_bits = 1, size_x = 4, size_y = 8, cells = [1, 1, 1, 1], fsize = 2,
        idx = 1,
        trace =
          [Rule 0, OffGrid 2863311530, OffGrid 4294967295,
           OffGrid 1431655765, OffGrid 1431655767, Probe 2, Probe 3,
           Probe 1, OffGrid 2863311531, OffGrid 2863311530,
           OffGrid 4294967295, OffGrid 1431655765, OffGrid 1431655767,
           Probe 2, Probe 3, Rule 3, Probe 1, Probe 0, Probe 2, OffGrid 8,
           OffGrid 9, OffGrid 12, OffGrid 6, OffGrid 4, Write 3, Probe 1,
           OffGrid 2863311531, Rule 1, OffGrid 2863311531,
           OffGrid 2863311530, Probe 0, Probe 2, Probe 3, OffGrid 6,
           OffGrid 4, OffGrid 2863311534, OffGrid 2863311531,
           OffGrid 2863311530, Probe 0, Probe 2, Probe 3, Rule 3, Probe 1,
           Probe 0, Probe 2, OffGrid 8, OffGrid 9, OffGrid 12, OffGrid 6,
           OffGrid 4, OffGrid 6, OffGrid 4, OffGrid 2863311534, Rule 2,
           Probe 0, OffGrid 1431655765, OffGrid 1431655767,
           OffGrid 1431655773, OffGrid 8, OffGrid 9, Probe 3, Probe 1,
           Probe 0, OffGrid 1431655765, OffGrid 1431655767,
           OffGrid 1431655773, OffGrid 8, OffGrid 9, Probe 3, Rule 3,
           Probe 1, Probe 0, Probe 2, OffGrid 8, OffGrid 9, OffGrid 12,
           OffGrid 6, OffGrid 4, Probe 1]\<rparr>"
    by (simp add: simulationTick_def scan_grid_def grid_of_def upt_0_2 run_simps)
  then show ?thesis
    by (simp add: Cell_defs)
qed

subsection \<open>The rule log of a dead cell\<close>

text \<open>
  \<open>first_write f0 tr k\<close>: in the log \<open>tr\<close>, the first application of the rule to the
  cell \<open>k\<close> is followed by its eight neighbour queries and by the write of \<open>k\<close>, and
  \<open>k\<close> is written nowhere else.
\<close>

definition first_write :: "GameField \<Rightarrow> event list \<Rightarrow> 32 word \<Rightarrow> bool" where
  "first_write f0 tr k \<longleftrightarrow>
     (\<exists>pre post.
        tr = pre @ Rule (ucast k) # map (probe_event f0) (walk k) @ Write (ucast k) # post
        \<and> Rule (ucast k) \<notin> set pre \<and> Write (ucast k) \<notin> set pre
        \<and> Write (ucast k) \<notin> set post)"

text \<open>
  \<open>V\<close> lists the keys the cursor has landed on in the visits
  \<^verbatim>\<open>if (field.up(mask) == Dead) field.updateCell();\<close> made so far. A cell \<open>k\<close> that
  was \<open>Dead\<close> when the tick began is \<open>Dead\<close> until its first visit and holds its
  target from then on; the rule has been applied to it at every visit when its count
  is 3, and at the first visit only when it is not.
\<close>

definition visited ::
  "GameField \<Rightarrow> 32 word list \<Rightarrow> GameField \<Rightarrow> event list \<Rightarrow> 32 word \<Rightarrow> bool" where
  "visited f0 V g tr k \<longleftrightarrow>
     cells g ! unat k = (if k \<in> set V then target f0 k else Dead) \<and>
     count_list tr (Rule (ucast k))
       = (if count_alive f0 k = 3 then count_list V k else if k \<in> set V then 1 else 0) \<and>
     (if k \<in> set V then first_write f0 tr k else Write (ucast k) \<notin> set tr)"

text \<open>
  The evaluate pass so far: \<open>Q\<close> holds the cells whose turn has come. A cell that was
  \<open>Alive\<close> is \<open>Alive\<close> or \<open>Dying\<close>, and \<open>Alive\<close> until its turn.
\<close>

definition ruled :: "GameField \<Rightarrow> 32 word set \<Rightarrow> 32 word list \<Rightarrow> GameField \<Rightarrow> bool" where
  "ruled f0 Q V g \<longleftrightarrow>
     same_frame f0 g \<and>
     (\<exists>tr. trace g = trace f0 @ tr \<and>
        (\<forall>k. \<not> off_grid f0 k \<longrightarrow>
           (cells f0 ! unat k = Alive \<longrightarrow>
              (cells g ! unat k = Alive \<or> cells g ! unat k = Dying)
              \<and> (k \<notin> Q \<longrightarrow> cells g ! unat k = Alive))
           \<and> (cells f0 ! unat k = Dead \<longrightarrow> visited f0 V g tr k)))"

lemma first_write_append:
  assumes "first_write f0 tr k" and "Write (ucast k) \<notin> set ev"
  shows "first_write f0 (tr @ ev) k"
proof -
  from assms(1) obtain pre post where
    p: "tr = pre @ Rule (ucast k) # map (probe_event f0) (walk k) @ Write (ucast k) # post"
      "Rule (ucast k) \<notin> set pre" "Write (ucast k) \<notin> set pre" "Write (ucast k) \<notin> set post"
    unfolding first_write_def by blast
  from p(1) have "tr @ ev
      = pre @ Rule (ucast k) # map (probe_event f0) (walk k) @ Write (ucast k) # (post @ ev)"
    by simp
  moreover from p(4) assms(2) have "Write (ucast k) \<notin> set (post @ ev)" by simp
  ultimately show ?thesis
    unfolding first_write_def using p(2,3) by blast
qed

lemma first_write_start:
  assumes "Rule (ucast k) \<notin> set tr" and "Write (ucast k) \<notin> set tr"
  shows "first_write f0 (tr @ Rule (ucast k) # map (probe_event f0) (walk k) @ [Write (ucast k)]) k"
  unfolding first_write_def using assms
  by (intro exI [of _ tr] exI [of _ "[]"]) simp

lemma probe_events_no_write [simp]:
  "Write x \<notin> probe_event g ` A" "Rule x \<notin> probe_event g ` A"
  by (auto simp add: probe_event_def)

lemma ruledD:
  assumes "ruled f0 Q V g"
  shows "same_frame f0 g"
    and "\<exists>tr. trace g = trace f0 @ tr \<and>
        (\<forall>k. \<not> off_grid f0 k \<longrightarrow>
           (cells f0 ! unat k = Alive \<longrightarrow>
              (cells g ! unat k = Alive \<or> cells g ! unat k = Dying)
              \<and> (k \<notin> Q \<longrightarrow> cells g ! unat k = Alive))
           \<and> (cells f0 ! unat k = Dead \<longrightarrow> visited f0 V g tr k))"
  using assms by (simp_all add: ruled_def)

lemma ruled_low_bit:
  assumes wf0: "wf f0" and st: "settled f0" and ru: "ruled f0 Q V g" and on: "\<not> off_grid f0 k"
  shows "cells g ! unat k AND 1 = cells f0 ! unat k AND 1"
proof -
  from ruledD(2) [OF ru] on obtain tr where
    a: "cells f0 ! unat k = Alive \<longrightarrow> cells g ! unat k = Alive \<or> cells g ! unat k = Dying"
    and d: "cells f0 ! unat k = Dead \<longrightarrow> visited f0 V g tr k"
    by blast
  from target_cases [OF wf0 st on]
  consider "cells f0 ! unat k = Alive"
    | "cells f0 ! unat k = Dead" "target f0 k = Birthing \<or> target f0 k = DeadVisited"
    by blast
  then show ?thesis
  proof cases
    case 1
    with a show ?thesis by (auto simp add: Cell_defs)
  next
    case 2
    from d 2(1) have "cells g ! unat k = target f0 k \<or> cells g ! unat k = Dead"
      by (simp add: visited_def split: if_splits)
    with 2 show ?thesis by (auto simp add: Cell_defs)
  qed
qed

lemma ruled_count_alive:
  assumes wf0: "wf f0" and st: "settled f0" and ru: "ruled f0 Q V g"
  shows "count_alive g k = count_alive f0 k"
proof -
  note og = same_frame_off_grid [OF ruledD(1) [OF ru]]
  have "probe g j AND Alive = probe f0 j AND Alive" for j
    using ruled_low_bit [OF wf0 st ru, of j] by (simp add: probe_def og Alive_def)
  then show ?thesis by (simp add: count_alive_def)
qed

lemma ruled_probe_event:
  assumes "ruled f0 Q V g"
  shows "probe_event g = probe_event f0"
  using same_frame_off_grid [OF ruledD(1) [OF assms]]
  by (simp add: probe_event_def fun_eq_iff)

lemma ruled_updated:
  assumes wf0: "wf f0" and st: "settled f0" and ru: "ruled f0 Q V g"
    and cur: "idx g = ucast k" and on: "\<not> off_grid f0 k"
  defines "c' \<equiv> next_state (cells g ! unat k) (count_alive f0 k)"
  shows "same_frame f0 (updated g)"
    and "\<And>j. \<not> off_grid f0 j \<Longrightarrow>
           cells (updated g) ! unat j = (if j = k then c' else cells g ! unat j)"
    and "trace (updated g) = trace g @ Rule (ucast k) # map (probe_event f0) (walk k)
           @ (if c' = cells g ! unat k then [] else [Write (ucast k)])"
    and "updateCell g = Inr (updated g)"
proof -
  note sf = ruledD(1) [OF ru]
  have wfg: "wf g" by (rule same_frame_wf [OF wf0 sf])
  have len: "unat j < length (cells g)" if "\<not> off_grid f0 j" for j
    using that wf0 sf by (simp add: on_grid_iff_unat same_frame_def)
  have ky: "key g = k" by (simp add: key_def cur ucast_up_down)
  have cnt: "count_alive g k = count_alive f0 k"
    by (rule ruled_count_alive [OF wf0 st ru])
  note pe = ruled_probe_event [OF ru]
  show "same_frame f0 (updated g)"
    using sf by (simp add: same_frame_def updated_def Let_def)
  have cells': "cells (updated g) = (cells g)[unat k := c']"
    by (simp add: updated_def Let_def cur ky cnt c'_def)
  show "cells (updated g) ! unat j = (if j = k then c' else cells g ! unat j)"
    if "\<not> off_grid f0 j" for j
    using len [OF that] len [OF on]
    by (simp add: cells' nth_list_update word_unat_eq_iff)
  show "trace (updated g) = trace g @ Rule (ucast k) # map (probe_event f0) (walk k)
           @ (if c' = cells g ! unat k then [] else [Write (ucast k)])"
    by (simp add: updated_def Let_def cur ky cnt c'_def pe)
  have "cursor_ok g" using len [OF on] by (simp add: cursor_ok_def cur)
  then show "updateCell g = Inr (updated g)"
    by (rule updateCell_eq [OF wfg])
qed

lemma visited_other:
  assumes v: "visited f0 V g tr j" and ne: "j \<noteq> k"
    and c: "cells g' ! unat j = cells g ! unat j"
    and r: "count_list ev (Rule (ucast j)) = 0" and w: "Write (ucast j) \<notin> set ev"
  shows "visited f0 (V @ [k]) g' (tr @ ev) j" "visited f0 V g' (tr @ ev) j"
  using v ne c r w
  by (auto simp add: visited_def first_write_append)

lemma ruled_update_alive:
  assumes wf0: "wf f0" and st: "settled f0" and ru: "ruled f0 Q V g"
    and cur: "idx g = ucast a" and on: "\<not> off_grid f0 a"
    and al: "cells f0 ! unat a = Alive" and q: "a \<in> Q"
  shows "ruled f0 Q V (updated g)"
proof -
  let ?c = "next_state (cells g ! unat a) (count_alive f0 a)"
  let ?ev = "Rule (ucast a) # map (probe_event f0) (walk a)
           @ (if ?c = cells g ! unat a then [] else [Write (ucast a)])"
  note u = ruled_updated [OF wf0 st ru cur on]
  from ruledD(2) [OF ru] obtain tr where tr: "trace g = trace f0 @ tr"
    and inv: "\<And>k. \<not> off_grid f0 k \<Longrightarrow>
           (cells f0 ! unat k = Alive \<longrightarrow>
              (cells g ! unat k = Alive \<or> cells g ! unat k = Dying)
              \<and> (k \<notin> Q \<longrightarrow> cells g ! unat k = Alive))
           \<and> (cells f0 ! unat k = Dead \<longrightarrow> visited f0 V g tr k)"
    by blast
  from inv [OF on] al have "cells g ! unat a = Alive \<or> cells g ! unat a = Dying" by simp
  then have c: "?c = Alive \<or> ?c = Dying"
    by (auto simp add: next_state_def Cell_defs)
  have t: "trace (updated g) = trace f0 @ (tr @ ?ev)"
    by (simp add: u(3) tr)
  have "(cells f0 ! unat k = Alive \<longrightarrow>
              (cells (updated g) ! unat k = Alive \<or> cells (updated g) ! unat k = Dying)
              \<and> (k \<notin> Q \<longrightarrow> cells (updated g) ! unat k = Alive))
           \<and> (cells f0 ! unat k = Dead \<longrightarrow> visited f0 V (updated g) (tr @ ?ev) k)"
    if k: "\<not> off_grid f0 k" for k
  proof (cases "k = a")
    case True
    with c q al show ?thesis by (simp add: u(2) [OF on])
  next
    case False
    have "visited f0 V (updated g) (tr @ ?ev) k" if "visited f0 V g tr k"
      by (rule visited_other(2) [OF that False]) (use False in \<open>simp_all add: u(2) [OF k]\<close>)
    with inv [OF k] False show ?thesis by (simp add: u(2) [OF k])
  qed
  with t u(1) show ?thesis unfolding ruled_def by blast
qed

lemma ruled_update_dead:
  assumes wf0: "wf f0" and st: "settled f0" and ru: "ruled f0 Q V g"
    and cur: "idx g = ucast k" and on: "\<not> off_grid f0 k"
    and d: "cells f0 ! unat k = Dead"
    and m: "cells g ! unat k AND (Alive OR DeadVisited) = Dead"
  shows "ruled f0 Q (V @ [k]) (updated g)"
proof -
  let ?c = "next_state (cells g ! unat k) (count_alive f0 k)"
  let ?ev = "Rule (ucast k) # map (probe_event f0) (walk k)
           @ (if ?c = cells g ! unat k then [] else [Write (ucast k)])"
  note u = ruled_updated [OF wf0 st ru cur on]
  from ruledD(2) [OF ru] obtain tr where tr: "trace g = trace f0 @ tr"
    and inv: "\<And>k. \<not> off_grid f0 k \<Longrightarrow>
           (cells f0 ! unat k = Alive \<longrightarrow>
              (cells g ! unat k = Alive \<or> cells g ! unat k = Dying)
              \<and> (k \<notin> Q \<longrightarrow> cells g ! unat k = Alive))
           \<and> (cells f0 ! unat k = Dead \<longrightarrow> visited f0 V g tr k)"
    by blast
  from inv [OF on] d have vk: "visited f0 V g tr k" by simp
  from target_cases [OF wf0 st on] d
  have tk: "target f0 k = Birthing \<or> target f0 k = DeadVisited" by simp
  have t: "trace (updated g) = trace f0 @ (tr @ ?ev)"
    by (simp add: u(3) tr)
  have new: "visited f0 (V @ [k]) (updated g) (tr @ ?ev) k"
  proof (cases "k \<in> set V")
    case False
    with vk have c: "cells g ! unat k = Dead" and r: "count_list tr (Rule (ucast k)) = 0"
      and w: "Write (ucast k) \<notin> set tr"
      by (simp_all add: visited_def)
    from r have r': "Rule (ucast k) \<notin> set tr" by (simp add: count_list_0_iff)
    have n: "?c = target f0 k" by (simp add: c d target_def)
    with tk have ne: "?c \<noteq> cells g ! unat k" by (auto simp add: c Cell_defs)
    have "first_write f0 (tr @ ?ev) k"
      using first_write_start [OF r' w, of f0] ne by simp
    with False r ne n show ?thesis
      by (simp add: visited_def u(2) [OF on])
  next
    case True
    with vk have c: "cells g ! unat k = target f0 k"
      and r: "count_list tr (Rule (ucast k))
        = (if count_alive f0 k = 3 then count_list V k else 1)"
      and fw: "first_write f0 tr k"
      by (simp_all add: visited_def)
    from m c tk masked_cases(5) have b: "target f0 k = Birthing" by auto
    then have "(if count_alive f0 k = 3 then Birthing else DeadVisited) = Birthing"
      using d by (simp add: target_def next_state_Dead)
    then have three: "count_alive f0 k = 3"
      by (cases "count_alive f0 k = 3") (simp_all add: Cell_defs)
    have n: "?c = cells g ! unat k"
      by (simp add: c b next_state_def Cell_defs)
    have "first_write f0 (tr @ ?ev) k"
      by (rule first_write_append [OF fw]) (simp add: n)
    with True r three n c show ?thesis
      by (simp add: visited_def u(2) [OF on])
  qed
  have "(cells f0 ! unat j = Alive \<longrightarrow>
              (cells (updated g) ! unat j = Alive \<or> cells (updated g) ! unat j = Dying)
              \<and> (j \<notin> Q \<longrightarrow> cells (updated g) ! unat j = Alive))
           \<and> (cells f0 ! unat j = Dead \<longrightarrow> visited f0 (V @ [k]) (updated g) (tr @ ?ev) j)"
    if j: "\<not> off_grid f0 j" for j
  proof (cases "j = k")
    case True
    with new d show ?thesis by simp
  next
    case False
    have "visited f0 (V @ [k]) (updated g) (tr @ ?ev) j" if "visited f0 V g tr j"
      by (rule visited_other(1) [OF that False]) (use False in \<open>simp_all add: u(2) [OF j]\<close>)
    with inv [OF j] False show ?thesis by (simp add: u(2) [OF j])
  qed
  with t u(1) show ?thesis unfolding ruled_def by blast
qed

lemma ruled_landing:
  assumes "ruled f0 Q V g"
  shows "ruled f0 Q V (record_event (probe_event g k) (g\<lparr>idx := i\<rparr>))"
proof -
  let ?g = "record_event (probe_event g k) (g\<lparr>idx := i\<rparr>)"
  from ruledD(2) [OF assms] obtain tr where tr: "trace g = trace f0 @ tr"
    and inv: "\<And>k. \<not> off_grid f0 k \<Longrightarrow>
           (cells f0 ! unat k = Alive \<longrightarrow>
              (cells g ! unat k = Alive \<or> cells g ! unat k = Dying)
              \<and> (k \<notin> Q \<longrightarrow> cells g ! unat k = Alive))
           \<and> (cells f0 ! unat k = Dead \<longrightarrow> visited f0 V g tr k)"
    by blast
  have t: "trace ?g = trace f0 @ (tr @ [probe_event g k])"
    by (simp add: tr)
  have e: "count_list [probe_event g k] (Rule x) = 0" "Write x \<notin> set [probe_event g k]" for x
    by (simp_all add: probe_event_def)
  have "visited f0 V ?g (tr @ [probe_event g k]) j" if "visited f0 V g tr j" for j
    using that e [of "ucast j"]
    by (auto simp add: visited_def first_write_append simp del: count_list.simps)
  with inv have "\<And>j. \<not> off_grid f0 j \<Longrightarrow>
           (cells f0 ! unat j = Alive \<longrightarrow>
              (cells ?g ! unat j = Alive \<or> cells ?g ! unat j = Dying)
              \<and> (j \<notin> Q \<longrightarrow> cells ?g ! unat j = Alive))
           \<and> (cells f0 ! unat j = Dead \<longrightarrow> visited f0 V ?g (tr @ [probe_event g k]) j)"
    by simp
  moreover have "same_frame f0 ?g"
    using ruledD(1) [OF assms] by (simp add: same_frame_def)
  ultimately show ?thesis
    unfolding ruled_def using t by blast
qed

lemma ruled_skip:
  assumes ru: "ruled f0 Q V g"
    and k: "\<not> off_grid f0 k \<and> cells f0 ! unat k = Dead
      \<longrightarrow> k \<in> set V \<and> count_alive f0 k \<noteq> 3"
  shows "ruled f0 Q (V @ [k]) g"
proof -
  from ruledD(2) [OF ru] obtain tr where tr: "trace g = trace f0 @ tr"
    and inv: "\<And>k. \<not> off_grid f0 k \<Longrightarrow>
           (cells f0 ! unat k = Alive \<longrightarrow>
              (cells g ! unat k = Alive \<or> cells g ! unat k = Dying)
              \<and> (k \<notin> Q \<longrightarrow> cells g ! unat k = Alive))
           \<and> (cells f0 ! unat k = Dead \<longrightarrow> visited f0 V g tr k)"
    by blast
  have "visited f0 (V @ [k]) g tr j"
    if "\<not> off_grid f0 j" "cells f0 ! unat j = Dead" "visited f0 V g tr j" for j
    using that k by (cases "j = k") (auto simp add: visited_def)
  with inv have "\<And>j. \<not> off_grid f0 j \<Longrightarrow>
           (cells f0 ! unat j = Alive \<longrightarrow>
              (cells g ! unat j = Alive \<or> cells g ! unat j = Dying)
              \<and> (j \<notin> Q \<longrightarrow> cells g ! unat j = Alive))
           \<and> (cells f0 ! unat j = Dead \<longrightarrow> visited f0 (V @ [k]) g tr j)"
    by blast
  with tr ruledD(1) [OF ru] show ?thesis
    unfolding ruled_def by blast
qed

lemma visit_ruled:
  assumes wf0: "wf f0" and st: "settled f0" and ru: "ruled f0 Q V g"
    and step: "\<And>h. wf h \<Longrightarrow>
      step (Alive OR DeadVisited) h = Inr (landing (Alive OR DeadVisited) (kstep (key h)) h)"
  shows "\<exists>g'. visit step g = Inr g' \<and> ruled f0 Q (V @ [kstep (key g)]) g'
           \<and> key g' = kstep (key g)"
proof -
  note sf = ruledD(1) [OF ru]
  let ?m = "Alive OR DeadVisited"
  let ?k = "kstep (key g)"
  let ?g1 = "record_event (probe_event g ?k) (g\<lparr>idx := ucast ?k\<rparr>)"
  have wfg: "wf g" by (rule same_frame_wf [OF wf0 sf])
  have og: "off_grid g = off_grid f0" by (rule same_frame_off_grid [OF sf])
  have ru1: "ruled f0 Q V ?g1" by (rule ruled_landing [OF ru])
  have k1: "key ?g1 = ?k" by simp
  have run: "visit step g = (if probe g ?k AND ?m = Dead then updateCell ?g1 else Inr ?g1)"
    by (simp add: visit_def step [OF wfg] landing_def)
  from ruledD(2) [OF ru] obtain tr where
    inv: "\<And>k. \<not> off_grid f0 k \<Longrightarrow> cells f0 ! unat k = Dead \<Longrightarrow> visited f0 V g tr k"
    by blast
  show ?thesis
  proof (cases "probe g ?k AND ?m = Dead")
    case True
    then have on: "\<not> off_grid f0 ?k"
      using masked_cases(5) by (auto simp add: probe_def og)
    with True have mk: "cells g ! unat ?k AND ?m = Dead"
      by (simp add: probe_def og)
    then have "cells g ! unat ?k AND 1 = 0" by (rule masked_low_bit)
    then have "cells f0 ! unat ?k AND 1 = 0"
      using ruled_low_bit [OF wf0 st ru on] by simp
    with settled_cell [OF wf0 st on] have d: "cells f0 ! unat ?k = Dead"
      by (auto simp add: Cell_defs)
    have cur: "idx ?g1 = ucast ?k" by simp
    from mk have mk1: "cells ?g1 ! unat ?k AND ?m = Dead" by simp
    have "ruled f0 Q (V @ [?k]) (updated ?g1)"
      by (rule ruled_update_dead [OF wf0 st ru1 cur on d mk1])
    moreover have "updateCell ?g1 = Inr (updated ?g1)"
      by (rule ruled_updated(4) [OF wf0 st ru1 cur on])
    moreover have "key (updated ?g1) = ?k"
      by (simp add: key_def updated_def Let_def ucast_up_down)
    ultimately show ?thesis using run True by simp
  next
    case False
    have "?k \<in> set V \<and> count_alive f0 ?k \<noteq> 3"
      if on: "\<not> off_grid f0 ?k" and d: "cells f0 ! unat ?k = Dead"
    proof -
      from False on have nm: "cells g ! unat ?k AND ?m \<noteq> Dead"
        by (simp add: probe_def og)
      from inv [OF on d] have c: "cells g ! unat ?k = (if ?k \<in> set V then target f0 ?k else Dead)"
        by (simp add: visited_def)
      with nm masked_cases(1) have v: "?k \<in> set V" by (auto split: if_splits)
      with c nm masked_cases(2) have "target f0 ?k \<noteq> Birthing" by auto
      then have "count_alive f0 ?k \<noteq> 3"
        using d by (auto simp add: target_def next_state_Dead)
      with v show ?thesis by simp
    qed
    then have "ruled f0 Q (V @ [?k]) ?g1"
      by (intro ruled_skip [OF ru1]) blast
    with run False k1 show ?thesis by simp
  qed
qed

lemmas visit_up_ruled = visit_ruled [where step = up and kstep = key_up, OF _ _ _ up_eq]
lemmas visit_left_ruled = visit_ruled [where step = left and kstep = key_left, OF _ _ _ left_eq]
lemmas visit_down_ruled = visit_ruled [where step = down and kstep = key_down, OF _ _ _ down_eq]
lemmas visit_right_ruled =
  visit_ruled [where step = right and kstep = key_right, OF _ _ _ right_eq]

lemma ruled_more_turns:
  assumes "ruled f0 Q V g" and "Q \<subseteq> Q'"
  shows "ruled f0 Q' V g"
  using assms unfolding ruled_def by blast

lemma ruled_idx_update [simp]: "ruled f0 Q V (g\<lparr>idx := i\<rparr>) = ruled f0 Q V g"
  by (simp add: ruled_def same_frame_def visited_def)

lemma ruled_start: "ruled f0 {} [] f0"
  by (simp add: ruled_def same_frame_def visited_def)

lemma evaluate_cell_ruled:
  assumes wf0: "wf f0" and st: "settled f0" and ru: "ruled f0 Q V g"
    and i: "unat i < length (cells f0)" and fresh: "ucast i \<notin> Q"
  shows "\<exists>g'. evaluate_cell i g = Inr g'
           \<and> ruled f0 (insert (ucast i) Q)
                (V @ (if cells f0 ! unat i = Alive then walk (ucast i) else [])) g'"
proof -
  let ?k = "ucast i :: 32 word"
  let ?Q = "insert ?k Q"
  note sf = ruledD(1) [OF ru]
  note ik = index_key [OF wf0 i]
  have rd: "cell_at i g = Inr (cells g ! unat i)"
    using i sf by (simp add: cell_at_def same_frame_def)
  from ruledD(2) [OF ru] ik(3) obtain tr where
    a: "cells f0 ! unat ?k = Alive \<longrightarrow> (?k \<notin> Q \<longrightarrow> cells g ! unat ?k = Alive)"
    and d: "cells f0 ! unat ?k = Dead \<longrightarrow> visited f0 V g tr ?k"
    by blast
  have same: "cells g ! unat i = Alive \<longleftrightarrow> cells f0 ! unat i = Alive"
  proof
    assume "cells f0 ! unat i = Alive"
    with a fresh show "cells g ! unat i = Alive" by (simp add: ik(1))
  next
    assume g: "cells g ! unat i = Alive"
    show "cells f0 ! unat i = Alive"
    proof (rule ccontr)
      assume "cells f0 ! unat i \<noteq> Alive"
      with target_cases [OF wf0 st ik(3)]
      have c: "cells f0 ! unat ?k = Dead" "target f0 ?k = Birthing \<or> target f0 ?k = DeadVisited"
        by (simp_all add: ik(1))
      with d have "cells g ! unat ?k = target f0 ?k \<or> cells g ! unat ?k = Dead"
        by (simp add: visited_def split: if_splits)
      with c(2) g show False by (auto simp add: ik(1) Cell_defs)
    qed
  qed
  have ruq: "ruled f0 ?Q V g"
    by (rule ruled_more_turns [OF ru]) auto
  show ?thesis
  proof (cases "cells f0 ! unat i = Alive")
    case False
    with same rd ruq show ?thesis by (simp add: evaluate_cell_def)
  next
    case True
    let ?g0 = "g\<lparr>idx := i\<rparr>"
    have ru0: "ruled f0 ?Q V ?g0" using ruq by simp
    have cur: "idx ?g0 = ucast ?k" by (simp add: ik(2))
    have al: "cells f0 ! unat ?k = Alive" using True by (simp add: ik(1))
    have q: "?k \<in> ?Q" by simp
    define g1 where "g1 = updated ?g0"
    have r1: "updateCell ?g0 = Inr g1"
      unfolding g1_def by (rule ruled_updated(4) [OF wf0 st ru0 cur ik(3)])
    have ru1: "ruled f0 ?Q V g1"
      unfolding g1_def by (rule ruled_update_alive [OF wf0 st ru0 cur ik(3) al q])
    have k1: "key g1 = ?k"
      by (simp add: g1_def key_def updated_def Let_def)
    from visit_up_ruled [OF wf0 st ru1]
    obtain g2 where g2: "visit up g1 = Inr g2" "ruled f0 ?Q (V @ [key_up (key g1)]) g2"
      "key g2 = key_up (key g1)"
      by blast
    from visit_left_ruled [OF wf0 st g2(2)]
    obtain g3 where g3: "visit left g2 = Inr g3"
      "ruled f0 ?Q ((V @ [key_up (key g1)]) @ [key_left (key g2)]) g3"
      "key g3 = key_left (key g2)"
      by blast
    from visit_down_ruled [OF wf0 st g3(2)]
    obtain g4 where g4: "visit down g3 = Inr g4"
      "ruled f0 ?Q (((V @ [key_up (key g1)]) @ [key_left (key g2)]) @ [key_down (key g3)]) g4"
      "key g4 = key_down (key g3)"
      by blast
    from visit_down_ruled [OF wf0 st g4(2)]
    obtain g5 where g5: "visit down g4 = Inr g5"
      "ruled f0 ?Q ((((V @ [key_up (key g1)]) @ [key_left (key g2)]) @ [key_down (key g3)])
         @ [key_down (key g4)]) g5"
      "key g5 = key_down (key g4)"
      by blast
    from visit_right_ruled [OF wf0 st g5(2)]
    obtain g6 where g6: "visit right g5 = Inr g6"
      "ruled f0 ?Q (((((V @ [key_up (key g1)]) @ [key_left (key g2)]) @ [key_down (key g3)])
         @ [key_down (key g4)]) @ [key_right (key g5)]) g6"
      "key g6 = key_right (key g5)"
      by blast
    from visit_right_ruled [OF wf0 st g6(2)]
    obtain g7 where g7: "visit right g6 = Inr g7"
      "ruled f0 ?Q ((((((V @ [key_up (key g1)]) @ [key_left (key g2)]) @ [key_down (key g3)])
         @ [key_down (key g4)]) @ [key_right (key g5)]) @ [key_right (key g6)]) g7"
      "key g7 = key_right (key g6)"
      by blast
    from visit_up_ruled [OF wf0 st g7(2)]
    obtain g8 where g8: "visit up g7 = Inr g8"
      "ruled f0 ?Q (((((((V @ [key_up (key g1)]) @ [key_left (key g2)]) @ [key_down (key g3)])
         @ [key_down (key g4)]) @ [key_right (key g5)]) @ [key_right (key g6)])
         @ [key_up (key g7)]) g8"
      "key g8 = key_up (key g7)"
      by blast
    from visit_up_ruled [OF wf0 st g8(2)]
    obtain g9 where g9: "visit up g8 = Inr g9"
      "ruled f0 ?Q ((((((((V @ [key_up (key g1)]) @ [key_left (key g2)]) @ [key_down (key g3)])
         @ [key_down (key g4)]) @ [key_right (key g5)]) @ [key_right (key g6)])
         @ [key_up (key g7)]) @ [key_up (key g8)]) g9"
      by blast
    from g9(2) have "ruled f0 ?Q (V @ walk ?k) g9"
      by (simp add: walk_def Let_def k1 g2(3) g3(3) g4(3) g5(3) g6(3) g7(3) g8(3))
    moreover have "evaluate_cell i g = Inr g9"
      using True same rd r1 g2(1) g3(1) g4(1) g5(1) g6(1) g7(1) g8(1) g9(1)
      by (simp add: evaluate_cell_def)
    ultimately show ?thesis using True by auto
  qed
qed

text \<open>The visits of the evaluate pass, in the order of the source, up to the index \<open>n\<close>.\<close>

definition visits :: "GameField \<Rightarrow> nat \<Rightarrow> 32 word list" where
  "visits f0 n =
     concat (map (\<lambda>i. if cells f0 ! i = Alive then walk (of_nat i) else []) [0..<n])"

lemma evaluate_prefix_ruled:
  assumes wf0: "wf f0" and st: "settled f0" and n: "n \<le> length (cells f0)"
  shows "\<exists>g. for_each (map of_nat [0..<n]) evaluate_cell f0 = Inr g
           \<and> ruled f0 {k. unat k < n} (visits f0 n) g"
  using n
proof (induction n)
  case 0
  show ?case by (simp add: visits_def ruled_start)
next
  case (Suc n)
  then obtain g where g: "for_each (map of_nat [0..<n]) evaluate_cell f0 = Inr g"
    "ruled f0 {k. unat k < n} (visits f0 n) g"
    by auto
  let ?i = "of_nat n :: 64 word"
  from Suc.prems wf_length_le [OF wf0] have n24: "n < 2 ^ 24" by simp
  then have u: "unat ?i = n" by (rule unat_of_nat_64)
  with Suc.prems have i: "unat ?i < length (cells f0)" by simp
  note ik = index_key [OF wf0 i]
  have fresh: "ucast ?i \<notin> {k :: 32 word. unat k < n}"
    by (simp add: ik(1) u)
  from evaluate_cell_ruled [OF wf0 st g(2) i fresh]
  obtain g' where g': "evaluate_cell ?i g = Inr g'"
    "ruled f0 (insert (ucast ?i) {k. unat k < n})
       (visits f0 n @ (if cells f0 ! unat ?i = Alive then walk (ucast ?i) else [])) g'"
    by blast
  have k: "(ucast ?i :: 32 word) = of_nat n"
    using ik(1) u n24 by (simp add: word_unat_eq_iff unat_of_nat_32)
  have "insert (ucast ?i) {k :: 32 word. unat k < n} = {k. unat k < Suc n}"
    using ik(1) u by (auto simp add: less_Suc_eq word_unat_eq_iff)
  moreover have "visits f0 n @ (if cells f0 ! unat ?i = Alive then walk (ucast ?i) else [])
      = visits f0 (Suc n)"
    by (simp add: visits_def u k)
  ultimately have "ruled f0 {k. unat k < Suc n} (visits f0 (Suc n)) g'"
    using g'(2) by simp
  moreover have "for_each (map of_nat [0..<Suc n]) evaluate_cell f0 = Inr g'"
    by (simp add: for_each_append g(1) g'(1))
  ultimately show ?case by blast
qed

subsection \<open>How many visits a dead cell gets\<close>

lemma count_list_concat:
  "count_list (concat xss) x = sum_list (map (\<lambda>xs. count_list xs x) xss)"
  by (induction xss) simp_all

lemma count_list_distinct:
  "distinct xs \<Longrightarrow> count_list xs x = (if x \<in> set xs then 1 else 0)"
  by (induction xs) auto

lemma sum_list_indicator_nat:
  "sum_list (map (\<lambda>x. if P x then 1 else 0) xs) = length (filter P xs)"
  by (induction xs) simp_all

text \<open>The alive neighbours of the cell \<open>k\<close>.\<close>

definition alive_around :: "GameField \<Rightarrow> 32 word \<Rightarrow> 32 word list" where
  "alive_around f k =
     filter (\<lambda>j. \<not> off_grid f j \<and> cells f ! unat j = Alive) (walk k)"

lemma length_walk: "length (walk k) = 8"
  by (simp add: walk_def Let_def)

lemma alive_around_le: "length (alive_around f k) \<le> 8"
  using length_filter_le [of _ "walk k"] by (simp add: alive_around_def length_walk)

lemma count_alive_around:
  assumes wf0: "wf f" and st: "settled f"
  shows "count_alive f k = of_nat (length (alive_around f k))"
proof -
  have "probe f j AND Alive
      = (if \<not> off_grid f j \<and> cells f ! unat j = Alive then 1 else 0)" for j
  proof (cases "off_grid f j")
    case True
    then show ?thesis by (simp add: probe_def Cell_defs)
  next
    case False
    with settled_cell [OF wf0 st False] show ?thesis
      by (auto simp add: probe_def Cell_defs)
  qed
  then show ?thesis
    by (simp add: count_alive_def alive_around_def sum_list_indicator)
qed

lemma count_visits:
  assumes wf0: "wf f"
  shows "count_list (visits f (length (cells f))) k = length (alive_around f k)"
proof -
  let ?N = "length (cells f)"
  let ?P = "\<lambda>i. cells f ! i = Alive \<and> k \<in> set (walk (of_nat i))"
  let ?A = "{i. i < ?N \<and> ?P i}"
  let ?R = "\<lambda>j. \<not> off_grid f j \<and> cells f ! unat j = Alive"
  note le = wf_length_le [OF wf0]
  have "count_list (visits f ?N) k
      = sum_list (map (\<lambda>i. if ?P i then 1 else 0) [0..<?N])"
    unfolding visits_def count_list_concat map_map o_def
    by (rule arg_cong [where f = sum_list], rule map_cong [OF refl])
      (simp add: count_list_distinct [OF distinct_walk])
  also have "\<dots> = length (filter ?P [0..<?N])"
    by (rule sum_list_indicator_nat)
  also have "\<dots> = card ({i. ?P i} \<inter> set [0..<?N])"
    by (rule distinct_length_filter) simp
  also have "{i. ?P i} \<inter> set [0..<?N] = ?A"
    by auto
  also have "card ?A = card ((of_nat :: nat \<Rightarrow> 32 word) ` ?A)"
  proof (rule card_image [symmetric])
    show "inj_on (of_nat :: nat \<Rightarrow> 32 word) ?A"
    proof (rule inj_onI)
      fix a b
      assume "a \<in> ?A" "b \<in> ?A" and e: "(of_nat a :: 32 word) = of_nat b"
      with le have "a < 2 ^ 24" "b < 2 ^ 24" by simp_all
      then have u: "unat (of_nat a :: 32 word) = a" "unat (of_nat b :: 32 word) = b"
        by (simp_all add: unat_of_nat_32)
      from e have "unat (of_nat a :: 32 word) = unat (of_nat b :: 32 word)"
        by (rule arg_cong)
      then show "a = b" by (simp only: u)
    qed
  qed
  also have "(of_nat :: nat \<Rightarrow> 32 word) ` ?A = {j. ?R j} \<inter> set (walk k)"
  proof (intro set_eqI iffI)
    fix j :: "32 word"
    assume "j \<in> of_nat ` ?A"
    then obtain i where i: "i < ?N" "cells f ! i = Alive" "k \<in> set (walk (of_nat i))"
      "j = of_nat i"
      by blast
    with le have u: "unat j = i" by (simp add: unat_of_nat_32)
    with i(1) have "\<not> off_grid f j" by (simp add: on_grid_iff_unat [OF wf0])
    moreover from i(3,4) have "j \<in> set (walk k)" by (simp add: walk_sym)
    ultimately show "j \<in> {j. ?R j} \<inter> set (walk k)" using i(2) u by simp
  next
    fix j :: "32 word"
    assume "j \<in> {j. ?R j} \<inter> set (walk k)"
    then have j: "\<not> off_grid f j" "cells f ! unat j = Alive" "j \<in> set (walk k)" by simp_all
    from j(1) have "unat j < ?N" by (simp add: on_grid_iff_unat [OF wf0])
    moreover from j(3) have "k \<in> set (walk (of_nat (unat j)))" by (simp add: walk_sym)
    ultimately have "unat j \<in> ?A" using j(2) by simp
    then have "of_nat (unat j) \<in> (of_nat :: nat \<Rightarrow> 32 word) ` ?A" by (rule imageI)
    then show "j \<in> of_nat ` ?A" by simp
  qed
  also have "card ({j. ?R j} \<inter> set (walk k)) = length (filter ?R (walk k))"
    by (rule distinct_length_filter [OF distinct_walk, symmetric])
  finally show ?thesis by (simp add: alive_around_def)
qed

text \<open>
  C2, amended. In the evaluate pass of \<^verbatim>\<open>simulationTick\<close>, a \<open>Dead\<close> cell \<open>(x, y)\<close>
  with at least one alive neighbour has \<^verbatim>\<open>updateCell\<close> applied to it exactly once when
  its count of alive neighbours is not 3, and exactly three times, once for each alive
  neighbour, when the count is 3. With a count other than 3 the first application
  leaves it \<open>DeadVisited\<close>, which reads non-zero under the mask
  \<open>Alive OR DeadVisited\<close>, so that later visits skip it; with a count of 3 it leaves it
  \<open>Birthing\<close>, which reads 0 under the mask, so that every later visit applies the rule
  again. In both cases the cell is written exactly once, by the first application: in
  the log of the pass, the first \<open>Rule\<close> event of the cell is followed by its eight
  neighbour queries and its \<open>Write\<close> event, and the cell has no other \<open>Write\<close> event.
\<close>

theorem bordering_dead_cell:
  assumes "wf f" and "settled f"
    and "0 \<le> x" and "x < side f" and "0 \<le> y" and "y < side f"
    and "\<not> alive_at f x y" and "0 < life_neighbours f x y"
  shows "\<exists>g tr pre post. scan_grid evaluate_cell f = Inr g \<and> trace g = trace f @ tr
      \<and> tr = pre @ Rule (ucast (interleaveXY (word_of_int x) (word_of_int y)))
                # map (probe_event f) (walk (interleaveXY (word_of_int x) (word_of_int y)))
                @ Write (ucast (interleaveXY (word_of_int x) (word_of_int y))) # post
      \<and> Rule (ucast (interleaveXY (word_of_int x) (word_of_int y))) \<notin> set pre
      \<and> Write (ucast (interleaveXY (word_of_int x) (word_of_int y))) \<notin> set pre
      \<and> Write (ucast (interleaveXY (word_of_int x) (word_of_int y))) \<notin> set post
      \<and> count_list tr (Write (ucast (interleaveXY (word_of_int x) (word_of_int y)))) = 1
      \<and> count_list tr (Rule (ucast (interleaveXY (word_of_int x) (word_of_int y))))
          = (if life_neighbours f x y = 3 then 3 else 1)
      \<and> cells g ! unat (interleaveXY (word_of_int x) (word_of_int y))
          = (if life_neighbours f x y = 3 then Birthing else DeadVisited)
      \<and> DeadVisited AND (Alive OR DeadVisited) \<noteq> Dead
      \<and> Birthing AND (Alive OR DeadVisited) = Dead"
proof -
  let ?k = "interleaveXY (word_of_int x) (word_of_int y)"
  let ?N = "length (cells f)"
  let ?V = "visits f ?N"
  note w = assms(1) and st = assms(2)
  from evaluate_prefix_ruled [OF w st order_refl]
  obtain g where g: "scan_grid evaluate_cell f = Inr g" "ruled f {k. unat k < ?N} ?V g"
    unfolding scan_grid_flat wf_side [OF w] by blast
  have on: "\<not> off_grid f ?k"
    using coordinate_on_board [OF w, of x] coordinate_on_board [OF w, of y] assms(3-6)
    by (simp add: off_grid_interleaveXY [OF w] on_board_def)
  have d: "cells f ! unat ?k = Dead"
    using settled_cell [OF w st on] assms(3-7) by (auto simp add: alive_at_def)
  have c: "count_alive f ?k = of_nat (life_neighbours f x y)"
    by (rule count_alive_neighbours [OF w st assms(3-6)])
  have "(of_nat (length (alive_around f ?k)) :: 8 word) = of_nat (life_neighbours f x y)"
    using c by (simp add: count_alive_around [OF w st])
  then have nb: "length (alive_around f ?k) = life_neighbours f x y"
    using alive_around_le [of f ?k] life_neighbours_le [of f x y]
    by (simp only: small_of_nat_eq)
  have "(of_nat (life_neighbours f x y) :: 8 word) = of_nat 3 \<longleftrightarrow> life_neighbours f x y = 3"
    using life_neighbours_le [of f x y] by (simp only: small_of_nat_eq)
  then have c3: "count_alive f ?k = 3 \<longleftrightarrow> life_neighbours f x y = 3"
    by (simp add: c)
  have cv: "count_list ?V ?k = life_neighbours f x y"
    by (simp add: count_visits [OF w] nb)
  with assms(8) have "count_list ?V ?k \<noteq> 0" by simp
  then have mem: "?k \<in> set ?V" by (simp add: count_list_0_iff)
  from ruledD(2) [OF g(2)] on d obtain tr where tr: "trace g = trace f @ tr"
    "visited f ?V g tr ?k"
    by blast
  from tr(2) mem have cell: "cells g ! unat ?k = target f ?k"
    and rules: "count_list tr (Rule (ucast ?k))
      = (if count_alive f ?k = 3 then count_list ?V ?k else 1)"
    and fw: "first_write f tr ?k"
    by (simp_all add: visited_def)
  from fw obtain pre post where
    p: "tr = pre @ Rule (ucast ?k) # map (probe_event f) (walk ?k) @ Write (ucast ?k) # post"
      "Rule (ucast ?k) \<notin> set pre" "Write (ucast ?k) \<notin> set pre"
      "Write (ucast ?k) \<notin> set post"
    unfolding first_write_def by blast
  from p(3,4) have "count_list pre (Write (ucast ?k)) = 0" "count_list post (Write (ucast ?k)) = 0"
    by (simp_all add: count_list_0_iff)
  then have w1: "count_list tr (Write (ucast ?k)) = 1"
    unfolding p(1) by simp
  have r: "count_list tr (Rule (ucast ?k)) = (if life_neighbours f x y = 3 then 3 else 1)"
    using rules cv c3 by simp
  have tg: "cells g ! unat ?k = (if life_neighbours f x y = 3 then Birthing else DeadVisited)"
    unfolding cell by (simp add: target_def d next_state_Dead c3)
  from g(1) tr(1) p w1 r tg masked_cases(2,5) show ?thesis
    by (intro exI [of _ g] exI [of _ tr] exI [of _ pre] exI [of _ post]) simp
qed

theorem bordering_dead_cell_witness:
  "(\<exists>g tr. scan_grid evaluate_cell (grid_of 1 [Alive, Alive, Alive, Dead] 0) = Inr g
      \<and> trace g = trace (grid_of 1 [Alive, Alive, Alive, Dead] 0) @ tr
      \<and> count_list tr (Rule 3) = 3 \<and> count_list tr (Write 3) = 1
      \<and> cells g ! 3 = Birthing)
   \<and> (\<exists>g tr. scan_grid evaluate_cell (grid_of 1 [Alive, Alive, Dead, Dead] 0) = Inr g
      \<and> trace g = trace (grid_of 1 [Alive, Alive, Dead, Dead] 0) @ tr
      \<and> count_list tr (Rule 3) = 1 \<and> count_list tr (Write 3) = 1
      \<and> cells g ! 3 = DeadVisited)"
proof -
  let ?f = "grid_of 1 [Alive, Alive, Alive, Dead] 0"
  let ?h = "grid_of 1 [Alive, Alive, Dead, Dead] 0"
  have w: "wf ?f" "wf ?h" by (simp_all add: wf_def grid_of_def)
  have s: "settled ?f" "settled ?h" by (simp_all add: settled_def grid_of_def)
  have b: "(0 :: int) \<le> 1" "1 < side ?f" "1 < side ?h"
    by (simp_all add: side_def grid_of_def)
  have k: "interleaveXY (word_of_int 1) (word_of_int 1) = 3"
    by (simp add: interleaveXY_def delta_swap_def)
  have k': "interleaveXY 1 1 = 3"
    by (simp add: interleaveXY_def delta_swap_def)
  have a: "\<not> alive_at ?f 1 1" "\<not> alive_at ?h 1 1"
    by (simp_all add: alive_at_def k' grid_of_def Cell_defs)
  have n: "life_neighbours ?f 1 1 = 3"
    by code_simp
  have m: "life_neighbours ?h 1 1 = 2"
    by code_simp
  from n m have p: "0 < life_neighbours ?f 1 1" "0 < life_neighbours ?h 1 1" by simp_all
  from bordering_dead_cell [OF w(1) s(1) b(1) b(2) b(1) b(2) a(1) p(1)]
  have first: "\<exists>g tr. scan_grid evaluate_cell ?f = Inr g \<and> trace g = trace ?f @ tr
      \<and> count_list tr (Rule 3) = 3 \<and> count_list tr (Write 3) = 1
      \<and> cells g ! 3 = Birthing"
    unfolding k n by auto
  from bordering_dead_cell [OF w(2) s(2) b(1) b(3) b(1) b(3) a(2) p(2)]
  have second: "\<exists>g tr. scan_grid evaluate_cell ?h = Inr g \<and> trace g = trace ?h @ tr
      \<and> count_list tr (Rule 3) = 1 \<and> count_list tr (Write 3) = 1
      \<and> cells g ! 3 = DeadVisited"
    unfolding k m by auto
  from first second show ?thesis by blast
qed

section \<open>The low bit during the evaluate pass\<close>

lemma low_bits:
  "Alive AND 1 = 1" "Dying AND 1 = 1" "Dead AND 1 = 0" "Birthing AND 1 = 0"
  "DeadVisited AND 1 = 0"
  by (simp_all add: Cell_defs)

lemma source_prefix:
  assumes w: "wf f" and n: "n \<le> length (cells f)"
  shows "\<forall>i\<in>set (map of_nat [0..<n] :: 64 word list). unat i < length (cells f)"
proof
  fix i :: "64 word"
  assume "i \<in> set (map of_nat [0..<n])"
  then obtain j where j: "j < n" "i = of_nat j" by auto
  with n wf_length_le [OF w] have "unat (of_nat j :: 64 word) = j"
    by (intro unat_of_nat_64) simp
  with j n show "unat i < length (cells f)" by simp
qed

lemma low_bit_at_index:
  assumes w: "wf f" and st: "settled f" and inv: "in_tick f Q P g"
    and i: "i < length (cells f)"
  shows "cells g ! i AND 1 = (if cells f ! i = Alive then 1 else 0)"
proof -
  from i wf_length_le [OF w] have u: "unat (of_nat i :: 32 word) = i"
    by (intro unat_of_nat_32) simp
  with i have on: "\<not> off_grid f (of_nat i)"
    using w by (simp add: on_grid_iff_unat)
  from low_bit_kept [OF in_tickD(2) [OF inv] on]
  have "cells g ! i AND 1 = cells f ! i AND 1" by (simp add: u)
  with settled_cell [OF w st on] show ?thesis
    by (auto simp add: u low_bits)
qed

lemma updateCell_low_bits:
  assumes "wf g" and "cursor_ok g"
  shows "\<exists>g'. updateCell g = Inr g' \<and> length (cells g') = length (cells g)
           \<and> (\<forall>i<length (cells g). cells g' ! i AND 1 = cells g ! i AND 1)"
  using assms
  by (auto simp add: updateCell_eq updated_def Let_def nth_list_update next_state_low_bit
      cursor_ok_def)

text \<open>
  C3. The numeric codes of \<open>Alive\<close> and \<open>Dying\<close> have low bit 1, those of \<open>Dead\<close>,
  \<open>Birthing\<close> and \<open>DeadVisited\<close> low bit 0. When a tick begins on a grid of \<open>Dead\<close> and
  \<open>Alive\<close> cells, then after any number \<open>n\<close> of cells of the evaluate pass the low bit
  of every cell is 1 exactly when the cell was \<open>Alive\<close> when the tick began. On any
  grid, \<^verbatim>\<open>updateCell\<close> keeps the low bit of every cell, and the cursor steps write no
  cell. The commit pass changes the bit: it turns \<open>Birthing\<close> into \<open>Alive\<close> and \<open>Dying\<close>
  into \<open>Dead\<close>.
\<close>

theorem low_bit_invariant:
  assumes "wf f" and "settled f"
  shows "(Alive AND 1 = 1 \<and> Dying AND 1 = 1 \<and> Dead AND 1 = 0 \<and> Birthing AND 1 = 0
          \<and> DeadVisited AND 1 = 0)
    \<and> (\<forall>n\<le>length (cells f). \<exists>g. for_each (map of_nat [0..<n]) evaluate_cell f = Inr g
          \<and> length (cells g) = length (cells f)
          \<and> (\<forall>i<length (cells f). cells g ! i AND 1 = (if cells f ! i = Alive then 1 else 0)))
    \<and> (\<forall>g. wf g \<and> cursor_ok g \<longrightarrow>
          (\<exists>g'. updateCell g = Inr g' \<and> length (cells g') = length (cells g)
             \<and> (\<forall>i<length (cells g). cells g' ! i AND 1 = cells g ! i AND 1)))
    \<and> (\<forall>g msk. wf g \<longrightarrow>
          (\<exists>c g'. up msk g = Inr (c, g') \<and> cells g' = cells g)
          \<and> (\<exists>c g'. down msk g = Inr (c, g') \<and> cells g' = cells g)
          \<and> (\<exists>c g'. left msk g = Inr (c, g') \<and> cells g' = cells g)
          \<and> (\<exists>c g'. right msk g = Inr (c, g') \<and> cells g' = cells g))
    \<and> (\<forall>g i. unat i < length (cells g) \<and> cells g ! unat i = Birthing \<longrightarrow>
          (\<exists>g'. commit_cell i g = Inr g' \<and> cells g' ! unat i = Alive))
    \<and> (\<forall>g i. unat i < length (cells g) \<and> cells g ! unat i = Dying \<longrightarrow>
          (\<exists>g'. commit_cell i g = Inr g' \<and> cells g' ! unat i = Dead))"
proof (intro conjI allI impI)
  fix n assume n: "n \<le> length (cells f)"
  from evaluate_in_order [OF assms source_prefix [OF assms(1) n]]
  obtain g where g: "for_each (map of_nat [0..<n]) evaluate_cell f = Inr g"
    "in_tick f (ucast ` set (map of_nat [0..<n] :: 64 word list))
       (ucast ` set (map of_nat [0..<n] :: 64 word list)) g"
    by blast
  have "length (cells g) = length (cells f)"
    using in_tickD(1) [OF g(2)] by (simp add: same_frame_def)
  moreover have "\<forall>i<length (cells f). cells g ! i AND 1 = (if cells f ! i = Alive then 1 else 0)"
    using low_bit_at_index [OF assms g(2)] by blast
  ultimately show "\<exists>g. for_each (map of_nat [0..<n]) evaluate_cell f = Inr g
          \<and> length (cells g) = length (cells f)
          \<and> (\<forall>i<length (cells f). cells g ! i AND 1 = (if cells f ! i = Alive then 1 else 0))"
    using g(1) by blast
next
  fix g assume "wf g \<and> cursor_ok g"
  then show "\<exists>g'. updateCell g = Inr g' \<and> length (cells g') = length (cells g)
             \<and> (\<forall>i<length (cells g). cells g' ! i AND 1 = cells g ! i AND 1)"
    using updateCell_low_bits by blast
next
  fix g :: GameField and i :: "64 word"
  assume "unat i < length (cells g) \<and> cells g ! unat i = Birthing"
  then show "\<exists>g'. commit_cell i g = Inr g' \<and> cells g' ! unat i = Alive"
    by (simp add: commit_cell_eq)
next
  fix g :: GameField and i :: "64 word"
  assume "unat i < length (cells g) \<and> cells g ! unat i = Dying"
  then show "\<exists>g'. commit_cell i g = Inr g' \<and> cells g' ! unat i = Dead"
    by (simp add: commit_cell_eq)
qed (simp_all add: low_bits step_eqs landing_def)

theorem low_bit_invariant_witness:
  "(\<exists>g. for_each (map of_nat [0..<4]) evaluate_cell (grid_of 1 [Alive, Alive, Alive, Dead] 0)
          = Inr g
        \<and> length (cells g) = 4 \<and> cells g ! 0 AND 1 = 1 \<and> cells g ! 3 AND 1 = 0)
   \<and> (\<exists>g'. updateCell (grid_of 1 [Alive, Alive, Alive, Dead] 0) = Inr g'
        \<and> length (cells g') = 4 \<and> cells g' ! 3 AND 1 = 0)"
proof -
  let ?f = "grid_of 1 [Alive, Alive, Alive, Dead] 0"
  have w: "wf ?f" by (simp add: wf_def grid_of_def)
  have s: "settled ?f" by (simp add: settled_def grid_of_def)
  have c: "cursor_ok ?f" by (simp add: cursor_ok_def grid_of_def)
  note t = low_bit_invariant [OF w s]
  from t [THEN conjunct2, THEN conjunct1, rule_format, of 4]
  obtain g where g: "for_each (map of_nat [0..<4]) evaluate_cell ?f = Inr g"
    "length (cells g) = length (cells ?f)"
    "\<forall>i<length (cells ?f). cells g ! i AND 1 = (if cells ?f ! i = Alive then 1 else 0)"
    by (auto simp add: grid_of_def)
  from g(3) have "cells g ! 0 AND 1 = 1" "cells g ! 3 AND 1 = 0"
    by (simp_all add: grid_of_def)
  with g(1,2) have a: "\<exists>g. for_each (map of_nat [0..<4]) evaluate_cell ?f = Inr g
        \<and> length (cells g) = 4 \<and> cells g ! 0 AND 1 = 1 \<and> cells g ! 3 AND 1 = 0"
    by (auto simp add: grid_of_def)
  from t [THEN conjunct2, THEN conjunct2, THEN conjunct1, rule_format, of ?f] w c
  obtain g' where g': "updateCell ?f = Inr g'" "length (cells g') = length (cells ?f)"
    "\<forall>i<length (cells ?f). cells g' ! i AND 1 = cells ?f ! i AND 1"
    by blast
  from g'(3) have "cells g' ! 3 AND 1 = 0"
    by (simp add: grid_of_def Cell_defs)
  with g'(1,2) have b: "\<exists>g'. updateCell ?f = Inr g' \<and> length (cells g') = 4
      \<and> cells g' ! 3 AND 1 = 0"
    by (auto simp add: grid_of_def)
  from a b show ?thesis by blast
qed

section \<open>No access outside the array\<close>

text \<open>The four cursor steps by name, and a program that makes a sequence of them.\<close>

datatype move = GoRight | GoLeft | GoUp | GoDown

fun step_of :: "move \<Rightarrow> 8 word \<Rightarrow> GameField \<Rightarrow> error + (8 word \<times> GameField)" where
  "step_of GoRight = right"
| "step_of GoLeft = left"
| "step_of GoUp = up"
| "step_of GoDown = down"

fun key_of :: "move \<Rightarrow> 32 word \<Rightarrow> 32 word" where
  "key_of GoRight = key_right"
| "key_of GoLeft = key_left"
| "key_of GoUp = key_up"
| "key_of GoDown = key_down"

fun run_steps :: "move list \<Rightarrow> 8 word \<Rightarrow> GameField \<Rightarrow> error + (8 word list \<times> GameField)" where
  "run_steps [] msk f = Inr ([], f)"
| "run_steps (m # ms) msk f =
     seq (step_of m msk f) (\<lambda>(c, g).
     seq (run_steps ms msk g) (\<lambda>(cs, h). Inr (c # cs, h)))"

fun in_bounds_read :: "event \<Rightarrow> bool" where
  "in_bounds_read (Probe k) = True"
| "in_bounds_read e = False"

fun off_grid_report :: "event \<Rightarrow> bool" where
  "off_grid_report (OffGrid k) = True"
| "off_grid_report e = False"

text \<open>The keys of the four corner cells.\<close>

definition corners :: "GameField \<Rightarrow> 32 word list" where
  "corners f =
     (let m = 2 ^ unat (n_bits f) - 1
      in [interleaveXY 0 0, interleaveXY m 0, interleaveXY 0 m, interleaveXY m m])"

lemma step_of_eq:
  assumes "wf f"
  shows "step_of m msk f = Inr (landing msk (key_of m (key f)) f)"
  using assms by (cases m) (simp_all add: step_eqs)

lemma wf_landing: "wf (snd (landing msk k f)) = wf f"
  by simp

lemma run_steps_safe:
  assumes "wf f"
  shows "\<exists>cs g. run_steps ms msk f = Inr (cs, g) \<and> wf g \<and> cells g = cells f"
  using assms
proof (induction ms arbitrary: f)
  case Nil
  then show ?case by simp
next
  case (Cons m ms)
  let ?g = "snd (landing msk (key_of m (key f)) f)"
  have w: "wf ?g" using Cons.prems by simp
  from Cons.IH [OF w] obtain cs h where
    h: "run_steps ms msk ?g = Inr (cs, h)" "wf h" "cells h = cells ?g"
    by blast
  then show ?case
    using Cons.prems by (simp add: step_of_eq landing_def)
qed

lemma updateCell_safe:
  assumes "wf f" and "cursor_ok f"
  shows "\<exists>g. updateCell f = Inr g \<and> wf g \<and> length (cells g) = length (cells f)"
  using assms by (simp add: updateCell_eq updated_def Let_def wf_def)

lemma sentinel_seen: "DeadVisited AND (Alive OR DeadVisited) \<noteq> Dead"
  by (simp add: Cell_defs)

lemma visit_safe:
  assumes w: "wf f" and st: "\<And>msk. step msk f = Inr (landing msk k f)"
  shows "\<exists>g. visit step f = Inr g \<and> wf g \<and> length (cells g) = length (cells f)"
proof (cases "probe f k AND (Alive OR DeadVisited) = Dead")
  case True
  let ?g = "record_event (probe_event f k) (f\<lparr>idx := ucast k\<rparr>)"
  from True have "\<not> off_grid f k"
    using sentinel_seen by (auto simp add: probe_def)
  then have "unat k < length (cells f)"
    using on_grid_iff_unat [OF w] by simp
  then have c: "cursor_ok ?g" by (simp add: cursor_ok_def)
  have w': "wf ?g" using w by simp
  from updateCell_safe [OF w' c] True show ?thesis
    by (simp add: visit_def st landing_def)
next
  case False
  then show ?thesis
    using w by (simp add: visit_def st landing_def)
qed

lemma visit_step_safe:
  assumes w: "wf f"
  shows "\<exists>g. visit up f = Inr g \<and> wf g \<and> length (cells g) = length (cells f)"
    and "\<exists>g. visit down f = Inr g \<and> wf g \<and> length (cells g) = length (cells f)"
    and "\<exists>g. visit left f = Inr g \<and> wf g \<and> length (cells g) = length (cells f)"
    and "\<exists>g. visit right f = Inr g \<and> wf g \<and> length (cells g) = length (cells f)"
  by (rule visit_safe [OF w], rule step_eqs [OF w])+

lemma evaluate_cell_safe:
  assumes w: "wf f" and i: "unat i < length (cells f)"
  shows "\<exists>g. evaluate_cell i f = Inr g \<and> wf g \<and> length (cells g) = length (cells f)"
proof (cases "cells f ! unat i = Alive")
  case False
  with w i show ?thesis by (simp add: evaluate_cell_def cell_at_def)
next
  case True
  have "wf (f\<lparr>idx := i\<rparr>)" "cursor_ok (f\<lparr>idx := i\<rparr>)"
    using w i by (simp_all add: cursor_ok_def)
  from updateCell_safe [OF this] obtain g0 where
    g0: "updateCell (f\<lparr>idx := i\<rparr>) = Inr g0" "wf g0" "length (cells g0) = length (cells f)"
    by auto
  from visit_step_safe(1) [OF g0(2)] g0(3) obtain g1 where
    g1: "visit up g0 = Inr g1" "wf g1" "length (cells g1) = length (cells f)" by auto
  from visit_step_safe(3) [OF g1(2)] g1(3) obtain g2 where
    g2: "visit left g1 = Inr g2" "wf g2" "length (cells g2) = length (cells f)" by auto
  from visit_step_safe(2) [OF g2(2)] g2(3) obtain g3 where
    g3: "visit down g2 = Inr g3" "wf g3" "length (cells g3) = length (cells f)" by auto
  from visit_step_safe(2) [OF g3(2)] g3(3) obtain g4 where
    g4: "visit down g3 = Inr g4" "wf g4" "length (cells g4) = length (cells f)" by auto
  from visit_step_safe(4) [OF g4(2)] g4(3) obtain g5 where
    g5: "visit right g4 = Inr g5" "wf g5" "length (cells g5) = length (cells f)" by auto
  from visit_step_safe(4) [OF g5(2)] g5(3) obtain g6 where
    g6: "visit right g5 = Inr g6" "wf g6" "length (cells g6) = length (cells f)" by auto
  from visit_step_safe(1) [OF g6(2)] g6(3) obtain g7 where
    g7: "visit up g6 = Inr g7" "wf g7" "length (cells g7) = length (cells f)" by auto
  from visit_step_safe(1) [OF g7(2)] g7(3) obtain g8 where
    g8: "visit up g7 = Inr g8" "wf g8" "length (cells g8) = length (cells f)" by auto
  from True i g0 g1 g2 g3 g4 g5 g6 g7 g8 show ?thesis
    by (simp add: evaluate_cell_def cell_at_def)
qed

lemma commit_cell_safe:
  assumes w: "wf f" and i: "unat i < length (cells f)"
  shows "\<exists>g. commit_cell i f = Inr g \<and> wf g \<and> length (cells g) = length (cells f)"
  using assms by (simp add: commit_cell_eq wf_def)

lemma scan_grid_safe:
  assumes w: "wf f"
    and body: "\<And>i g. wf g \<Longrightarrow> length (cells g) = length (cells f) \<Longrightarrow> unat i < length (cells f)
      \<Longrightarrow> \<exists>g'. body i g = Inr g' \<and> wf g' \<and> length (cells g') = length (cells f)"
  shows "\<exists>g. scan_grid body f = Inr g \<and> wf g \<and> length (cells g) = length (cells f)"
proof -
  let ?xs = "map of_nat [0..<unat (fsize f) * unat (fsize f)] :: 64 word list"
  let ?I = "\<lambda>(done :: 64 word list) g. wf g \<and> length (cells g) = length (cells f)"
  have "\<exists>s'. for_each ?xs body f = Inr s' \<and> ?I ?xs s'"
  proof (rule for_each_invariant [where I = ?I])
    show "?I [] f" using w by simp
  next
    fix done' :: "64 word list" and x s
    assume "?I done' s" and "x \<in> set ?xs"
    with source_order(1) [OF w] have "wf s" "length (cells s) = length (cells f)"
      "unat x < length (cells f)" by auto
    from body [OF this] show "\<exists>s'. body x s = Inr s' \<and> ?I (done' @ [x]) s'" by simp
  qed
  then show ?thesis by (simp add: scan_grid_flat)
qed

lemma simulationTick_safe:
  assumes w: "wf f"
  shows "\<exists>g. simulationTick f = Inr g \<and> wf g \<and> length (cells g) = length (cells f)"
proof -
  have "\<exists>g. scan_grid evaluate_cell f = Inr g \<and> wf g \<and> length (cells g) = length (cells f)"
  proof (rule scan_grid_safe [OF w])
    fix i :: "64 word" and g
    assume "wf g" "length (cells g) = length (cells f)" "unat i < length (cells f)"
    then show "\<exists>g'. evaluate_cell i g = Inr g' \<and> wf g' \<and> length (cells g') = length (cells f)"
      using evaluate_cell_safe [of g i] by simp
  qed
  then obtain g where g: "scan_grid evaluate_cell f = Inr g" "wf g"
    "length (cells g) = length (cells f)" by auto
  have "\<exists>h. scan_grid commit_cell g = Inr h \<and> wf h \<and> length (cells h) = length (cells g)"
  proof (rule scan_grid_safe [OF g(2)])
    fix i :: "64 word" and h
    assume "wf h" "length (cells h) = length (cells g)" "unat i < length (cells g)"
    then show "\<exists>g'. commit_cell i h = Inr g' \<and> wf g' \<and> length (cells g') = length (cells g)"
      using commit_cell_safe [of h i] by simp
  qed
  with g show ?thesis by (auto simp add: simulationTick_def)
qed

lemma step_off_grid:
  assumes w: "wf f" and o: "off_grid f (key_of m (key f))"
  shows "step_of m msk f =
    Inr (DeadVisited AND msk,
         f\<lparr>idx := ucast (key_of m (key f)),
           trace := trace f @ [OffGrid (ucast (key_of m (key f)))]\<rparr>)"
  using o by (simp add: step_of_eq [OF w] landing_def probe_def probe_event_def record_event_def)

lemma step_on_grid:
  assumes w: "wf f" and o: "\<not> off_grid f (key_of m (key f))"
  shows "unat (key_of m (key f)) < length (cells f)"
    and "step_of m msk f =
    Inr (cells f ! unat (key_of m (key f)) AND msk,
         f\<lparr>idx := ucast (key_of m (key f)),
           trace := trace f @ [Probe (ucast (key_of m (key f)))]\<rparr>)"
  using o on_grid_iff_unat [OF w, of "key_of m (key f)"]
  by (simp_all add: step_of_eq [OF w] landing_def probe_def probe_event_def record_event_def)

lemma countAliveNeighbors_reads:
  assumes w: "wf f"
  shows "\<exists>c g evs. countAliveNeighbors f = Inr (c, g) \<and> cells g = cells f
      \<and> trace g = trace f @ evs
      \<and> (\<forall>k. Probe k \<in> set evs \<longrightarrow> unat k < length (cells f))"
proof -
  have "\<forall>k. Probe k \<in> set (map (probe_event f) (walk (key f))) \<longrightarrow> unat k < length (cells f)"
    using on_grid_iff_unat [OF w]
    by (auto simp add: probe_event_def split: if_splits)
  then show ?thesis
    by (simp add: countAliveNeighbors_eq [OF w])
qed

subsection \<open>The corners\<close>

lemma side16:
  assumes "n \<le> 12"
  shows "unat (2 ^ n :: 16 word) = 2 ^ n"
  using assms by (simp add: unat_pow2)

lemma corner_facts:
  assumes n: "1 \<le> n" "n \<le> 12"
  shows "(0 :: 16 word) < 2 ^ n" "(1 :: 16 word) < 2 ^ n" "(2 ^ n - 1 :: 16 word) < 2 ^ n"
    "(2 ^ n - 2 :: 16 word) < 2 ^ n" "\<not> (2 ^ n :: 16 word) < 2 ^ n"
    "\<not> (- 1 :: 16 word) < 2 ^ n"
proof -
  have p: "unat (2 ^ n :: 16 word) = 2 ^ n" using n by (simp add: side16)
  have two: "(2 :: nat) \<le> 2 ^ n"
    using n(1) power_increasing [of 1 n "2 :: nat"] by simp
  show "(0 :: 16 word) < 2 ^ n" "(1 :: 16 word) < 2 ^ n"
    using two by (simp_all add: word_less_nat_alt p)
  have "(1 :: 16 word) \<le> 2 ^ n" "(2 :: 16 word) \<le> 2 ^ n"
    using two by (simp_all add: word_le_nat_alt p)
  then have "unat (2 ^ n - 1 :: 16 word) = 2 ^ n - 1" "unat (2 ^ n - 2 :: 16 word) = 2 ^ n - 2"
    by (simp_all add: unat_sub p)
  then show "(2 ^ n - 1 :: 16 word) < 2 ^ n" "(2 ^ n - 2 :: 16 word) < 2 ^ n"
    using two by (simp_all add: word_less_nat_alt p)
  show "\<not> (2 ^ n :: 16 word) < 2 ^ n" by simp
  show "\<not> (- 1 :: 16 word) < 2 ^ n" by (simp add: not_less)
qed

lemma probe_event_interleaveXY:
  assumes "wf f"
  shows "probe_event f (interleaveXY a b) =
    (if on_board f a b then Probe (ucast (interleaveXY a b))
     else OffGrid (ucast (interleaveXY a b)))"
  by (simp add: probe_event_def off_grid_interleaveXY [OF assms])

lemma corner_walk:
  assumes w: "wf f" and n: "1 \<le> unat (n_bits f)" and c: "k \<in> set (corners f)"
  shows "length (filter in_bounds_read (map (probe_event f) (walk k))) = 3
    \<and> length (filter off_grid_report (map (probe_event f) (walk k))) = 5"
proof -
  let ?n = "unat (n_bits f)"
  from w have "?n \<le> 12" by (simp add: wf_def)
  note cf = corner_facts [OF n this]
  from c consider "k = interleaveXY 0 0" | "k = interleaveXY (2 ^ ?n - 1) 0"
    | "k = interleaveXY 0 (2 ^ ?n - 1)" | "k = interleaveXY (2 ^ ?n - 1) (2 ^ ?n - 1)"
    by (auto simp add: corners_def Let_def)
  then show ?thesis
    by cases
      (simp_all add: walk_interleaveXY moore_def probe_event_interleaveXY [OF w] on_board_def cf)
qed

text \<open>
  C6, as stated, fails on the grid of side 1, which the constructor builds: its only
  cell is a corner, and the neighbour count of that cell reads no cell at all, all
  eight queries reporting off-grid.
\<close>

theorem corner_of_unit_grid_counterexample:
  "GameField_new 1 = Inr (grid_of 0 [Dead] 0)
   \<and> key (grid_of 0 [Alive] 0) \<in> set (corners (grid_of 0 [Alive] 0))
   \<and> countAliveNeighbors (grid_of 0 [Alive] 0)
       = Inr (0, (grid_of 0 [Alive] 0)
           \<lparr>trace := [OffGrid 2863311530, OffGrid 4294967295, OffGrid 1431655765,
                      OffGrid 1431655767, OffGrid 2, OffGrid 3, OffGrid 1,
                      OffGrid 2863311531]\<rparr>)
   \<and> length (filter in_bounds_read
         [OffGrid 2863311530, OffGrid 4294967295, OffGrid 1431655765,
          OffGrid 1431655767, OffGrid 2, OffGrid 3, OffGrid 1, OffGrid 2863311531]) \<noteq> 3"
proof -
  have a: "GameField_new 1 = Inr (grid_of 0 [Dead] 0)"
    by code_simp
  have b: "key (grid_of 0 [Alive] 0) \<in> set (corners (grid_of 0 [Alive] 0))"
    by code_simp
  have c: "countAliveNeighbors (grid_of 0 [Alive] 0)
       = Inr (0, (grid_of 0 [Alive] 0)
           \<lparr>trace := [OffGrid 2863311530, OffGrid 4294967295, OffGrid 1431655765,
                      OffGrid 1431655767, OffGrid 2, OffGrid 3, OffGrid 1,
                      OffGrid 2863311531]\<rparr>)"
    by (simp add: grid_of_def run_simps)
  from a b c show ?thesis by simp
qed

text \<open>
  C6, amended. On a well-formed grid, from every cursor position: every sequence of
  cursor steps returns, leaving the cells as they were; a step whose destination is
  off the grid (one of its coordinates is not below \<open>N\<close>) returns the sentinel
  \<open>DeadVisited\<close> under the mask and logs only that, reading nothing, and a step
  whose destination is on the grid reads the array at an index below \<open>N \<times> N\<close>;
  \<^verbatim>\<open>countAliveNeighbors\<close> returns and every read it makes is below \<open>N \<times> N\<close>;
  \<^verbatim>\<open>simulationTick\<close> returns, whatever the cells hold, so none of its
  bounds-checked reads and writes was outside the array. On a grid of side
  \<open>N \<ge> 2\<close>, the neighbour count of a corner cell makes exactly 3 in-bounds
  reads, and its other 5 queries report off-grid.
\<close>

theorem no_access_outside:
  assumes "wf f"
  shows "(\<forall>ms msk. \<exists>cs g. run_steps ms msk f = Inr (cs, g) \<and> wf g \<and> cells g = cells f)
    \<and> (\<forall>k. off_grid f k \<longleftrightarrow> \<not> on_board f (decodeX k) (decodeY k))
    \<and> (\<forall>m msk.
         (off_grid f (key_of m (key f)) \<longrightarrow>
            step_of m msk f =
              Inr (DeadVisited AND msk,
                   f\<lparr>idx := ucast (key_of m (key f)),
                     trace := trace f @ [OffGrid (ucast (key_of m (key f)))]\<rparr>))
         \<and> (\<not> off_grid f (key_of m (key f)) \<longrightarrow>
            unat (key_of m (key f)) < length (cells f)
            \<and> step_of m msk f =
              Inr (cells f ! unat (key_of m (key f)) AND msk,
                   f\<lparr>idx := ucast (key_of m (key f)),
                     trace := trace f @ [Probe (ucast (key_of m (key f)))]\<rparr>)))
    \<and> (\<exists>c g evs. countAliveNeighbors f = Inr (c, g) \<and> cells g = cells f
          \<and> trace g = trace f @ evs
          \<and> (\<forall>k. Probe k \<in> set evs \<longrightarrow> unat k < length (cells f)))
    \<and> (\<exists>g. simulationTick f = Inr g \<and> wf g \<and> length (cells g) = length (cells f))
    \<and> (1 \<le> unat (n_bits f) \<and> key f \<in> set (corners f) \<longrightarrow>
         (\<exists>c g evs. countAliveNeighbors f = Inr (c, g) \<and> trace g = trace f @ evs
            \<and> length (filter in_bounds_read evs) = 3
            \<and> length (filter off_grid_report evs) = 5))"
proof (intro conjI allI impI)
  fix ms msk
  show "\<exists>cs g. run_steps ms msk f = Inr (cs, g) \<and> wf g \<and> cells g = cells f"
    by (rule run_steps_safe [OF assms])
next
  fix k
  show "off_grid f k \<longleftrightarrow> \<not> on_board f (decodeX k) (decodeY k)"
    by (simp add: off_grid_iff [OF assms] on_board_def)
next
  fix m msk
  assume "off_grid f (key_of m (key f))"
  then show "step_of m msk f =
      Inr (DeadVisited AND msk,
           f\<lparr>idx := ucast (key_of m (key f)),
             trace := trace f @ [OffGrid (ucast (key_of m (key f)))]\<rparr>)"
    by (rule step_off_grid [OF assms])
next
  fix m msk
  assume "\<not> off_grid f (key_of m (key f))"
  then show "unat (key_of m (key f)) < length (cells f)"
    by (rule step_on_grid(1) [OF assms])
next
  fix m msk
  assume "\<not> off_grid f (key_of m (key f))"
  then show "step_of m msk f =
      Inr (cells f ! unat (key_of m (key f)) AND msk,
           f\<lparr>idx := ucast (key_of m (key f)),
             trace := trace f @ [Probe (ucast (key_of m (key f)))]\<rparr>)"
    by (rule step_on_grid(2) [OF assms])
next
  show "\<exists>c g evs. countAliveNeighbors f = Inr (c, g) \<and> cells g = cells f
          \<and> trace g = trace f @ evs
          \<and> (\<forall>k. Probe k \<in> set evs \<longrightarrow> unat k < length (cells f))"
    by (rule countAliveNeighbors_reads [OF assms])
next
  show "\<exists>g. simulationTick f = Inr g \<and> wf g \<and> length (cells g) = length (cells f)"
    by (rule simulationTick_safe [OF assms])
next
  assume "1 \<le> unat (n_bits f) \<and> key f \<in> set (corners f)"
  then have "length (filter in_bounds_read (map (probe_event f) (walk (key f)))) = 3
    \<and> length (filter off_grid_report (map (probe_event f) (walk (key f)))) = 5"
    using corner_walk [OF assms] by simp
  then show "\<exists>c g evs. countAliveNeighbors f = Inr (c, g) \<and> trace g = trace f @ evs
            \<and> length (filter in_bounds_read evs) = 3
            \<and> length (filter off_grid_report evs) = 5"
    by (simp add: countAliveNeighbors_eq [OF assms])
qed

theorem no_access_outside_witness:
  "(\<exists>cs g. run_steps [GoLeft, GoUp, GoRight, GoDown] Alive
              (grid_of 1 [Alive, Dead, Dead, Dead] 0) = Inr (cs, g)
        \<and> cells g = [Alive, Dead, Dead, Dead])
   \<and> step_of GoLeft Alive (grid_of 1 [Alive, Dead, Dead, Dead] 0)
       = Inr (0, (grid_of 1 [Alive, Dead, Dead, Dead] 0)
               \<lparr>idx := 1431655765, trace := [OffGrid 1431655765]\<rparr>)
   \<and> (\<exists>g. simulationTick (grid_of 1 [Alive, Dead, Dead, Dead] 0) = Inr g
        \<and> length (cells g) = 4)
   \<and> (\<exists>c g. countAliveNeighbors (grid_of 1 [Alive, Dead, Dead, Dead] 0) = Inr (c, g)
        \<and> length (filter in_bounds_read (trace g)) = 3
        \<and> length (filter off_grid_report (trace g)) = 5)"
proof -
  let ?f = "grid_of 1 [Alive, Dead, Dead, Dead] 0"
  have w: "wf ?f" by (simp add: wf_def grid_of_def)
  have n: "1 \<le> unat (n_bits ?f)" by (simp add: grid_of_def)
  have c: "key ?f \<in> set (corners ?f)" by code_simp
  have k: "key_of GoLeft (key ?f) = 1431655765" by code_simp
  have o: "off_grid ?f 1431655765" by code_simp
  note t = no_access_outside [OF w]
  from t [THEN conjunct1, rule_format, of "[GoLeft, GoUp, GoRight, GoDown]" Alive]
  have a: "\<exists>cs g. run_steps [GoLeft, GoUp, GoRight, GoDown] Alive ?f = Inr (cs, g)
        \<and> cells g = [Alive, Dead, Dead, Dead]"
    by (auto simp add: grid_of_def)
  have o': "off_grid ?f (key_of GoLeft (key ?f))"
    unfolding k by (rule o)
  have "step_of GoLeft Alive ?f
       = Inr (DeadVisited AND Alive,
              ?f\<lparr>idx := ucast (key_of GoLeft (key ?f)),
                 trace := trace ?f @ [OffGrid (ucast (key_of GoLeft (key ?f)))]\<rparr>)"
    by (rule t [THEN conjunct2, THEN conjunct2, THEN conjunct1, rule_format, of GoLeft Alive,
      THEN conjunct1, rule_format, OF o'])
  then have b: "step_of GoLeft Alive ?f
       = Inr (0, ?f\<lparr>idx := 1431655765, trace := [OffGrid 1431655765]\<rparr>)"
    unfolding k by (simp add: grid_of_def Cell_defs)
  from t [THEN conjunct2, THEN conjunct2, THEN conjunct2, THEN conjunct2, THEN conjunct1]
  have d: "\<exists>g. simulationTick ?f = Inr g \<and> length (cells g) = 4"
    by (auto simp add: grid_of_def)
  from t [THEN conjunct2, THEN conjunct2, THEN conjunct2, THEN conjunct2, THEN conjunct2,
      rule_format] n c
  have e: "\<exists>c g. countAliveNeighbors ?f = Inr (c, g)
        \<and> length (filter in_bounds_read (trace g)) = 3
        \<and> length (filter off_grid_report (trace g)) = 5"
    by (auto simp add: grid_of_def)
  from a b d e show ?thesis by blast
qed

section \<open>Construction\<close>

lemma scan_size_pow2:
  assumes "k < 64 - n"
  shows "scan_size n (2 ^ k) = (n + k, 0)"
  using assms
proof (induction k arbitrary: n)
  case 0
  then show ?case by (simp add: scan_size.simps [of n 1])
next
  case (Suc k)
  from Suc.prems have k: "k < 64 - (n + 1)" and n: "n < 64" by simp_all
  have e: "(2 ^ Suc k :: 64 word) AND 1 = 0"
    by (rule bit_eqI) (auto simp add: bit_and_iff bit_1_iff bit_exp_iff simp del: power_Suc)
  have d: "drop_bit 1 (2 ^ Suc k :: 64 word) = 2 ^ k"
    by (rule bit_eqI)
      (use Suc.prems in \<open>auto simp add: bit_drop_bit_eq bit_exp_iff simp del: power_Suc\<close>)
  have "scan_size n (2 ^ Suc k) = scan_size (n + 1) (drop_bit 1 (2 ^ Suc k))"
    using n e by (simp add: scan_size.simps [of n "2 ^ Suc k"] del: power_Suc)
  also have "\<dots> = scan_size (n + 1) (2 ^ k)"
    by (simp only: d)
  also have "\<dots> = (n + 1 + k, 0)"
    by (rule Suc.IH [OF k])
  finally show ?case by simp
qed

lemma low_bit_clear:
  assumes "(sz :: 64 word) AND 1 = 0"
  shows "sz = 2 * drop_bit 1 sz"
proof -
  have "take_bit 1 sz = 0" using assms by (simp add: take_bit_eq_mask)
  with bits_ident [of 1 sz] show ?thesis by (simp add: push_bit_eq_mult ac_simps)
qed

lemma low_bit_only:
  assumes "(sz :: 64 word) AND 1 \<noteq> 0" and "drop_bit 1 sz = 0"
  shows "sz = 1"
proof -
  have "take_bit 1 sz = 1" using assms(1) by (simp add: take_bit_eq_mask and_one_eq)
  with bits_ident [of 1 sz] assms(2) show ?thesis by simp
qed

lemma scan_size_found:
  assumes "scan_size n sz = (m, 0)" and "m \<noteq> 64" and "n \<le> 64"
  shows "\<exists>k. k < 64 - n \<and> sz = 2 ^ k \<and> m = n + k"
  using assms
proof (induction n sz rule: scan_size.induct)
  case (1 n sz)
  show ?case
  proof (cases "n < 64")
    case False
    with "1.prems" show ?thesis by (simp add: scan_size.simps [of n sz])
  next
    case n: True
    show ?thesis
    proof (cases "sz AND 1 \<noteq> 0")
      case True
      with n "1.prems" have "drop_bit 1 sz = 0" "m = n"
        by (simp_all add: scan_size.simps [of n sz])
      with True have "sz = 2 ^ 0" "m = n + 0" by (simp_all add: low_bit_only)
      with n show ?thesis by (intro exI [of _ 0]) simp
    next
      case False
      then have z: "sz AND 1 = 0" by simp
      with n "1.prems" have "scan_size (n + 1) (drop_bit 1 sz) = (m, 0)"
        by (simp add: scan_size.simps [of n sz])
      from n have "n + 1 \<le> 64" by simp
      from "1.IH" [OF n False \<open>scan_size (n + 1) (drop_bit 1 sz) = (m, 0)\<close> "1.prems"(2) this]
      obtain k where
        k: "k < 64 - (n + 1)" "drop_bit 1 sz = 2 ^ k" "m = n + 1 + k" by auto
      from low_bit_clear [OF z] k(2) have "sz = 2 ^ Suc k" by simp
      with k show ?thesis by (intro exI [of _ "Suc k"]) simp
    qed
  qed
qed

lemma interleaveXY_pow2:
  assumes "k \<le> 12"
  shows "interleaveXY (2 ^ k) 0 = 2 ^ (2 * k)"
proof (rule bit_eqI)
  fix i
  assume "possible_bit TYPE(32 word) i"
  from assms have "2 * k < 32" "k < 16" by simp_all
  then show "bit (interleaveXY (2 ^ k) 0) i \<longleftrightarrow> bit (2 ^ (2 * k) :: 32 word) i"
    by (auto simp add: bit_interleaveXY bit_exp_iff elim: evenE)
qed

lemma ucast_pow2:
  assumes "k < LENGTH('b::len)"
  shows "(ucast (2 ^ k :: 'a::len word) :: 'b word) = (if k < LENGTH('a) then 2 ^ k else 0)"
  by (rule bit_eqI) (use assms in \<open>auto simp add: bit_ucast_iff bit_exp_iff\<close>)

lemma GameField_new_pow2:
  assumes "k \<le> 12"
  shows "GameField_new (2 ^ k) = Inr (grid_of k (replicate (2 ^ (2 * k)) Dead) 0)"
proof -
  from assms have s: "scan_size 0 (2 ^ k) = (0 + k, 0)"
    by (intro scan_size_pow2) simp
  from assms have "(ucast (2 ^ k :: 64 word) :: 16 word) = 2 ^ k"
    by (simp add: ucast_pow2)
  moreover from assms have "(ucast (2 ^ (2 * k) :: 32 word) :: 64 word) = 2 ^ (2 * k)"
    by (simp add: ucast_pow2)
  ultimately have x: "(ucast (interleaveXY (ucast (2 ^ k :: 64 word)) 0) :: 64 word)
      = 2 ^ (2 * k)"
    using assms by (simp add: interleaveXY_pow2)
  show ?thesis
    using assms unfolding GameField_new_def s x
    by (simp add: grid_of_def push_bit_eq_mult Let_def ac_simps)
qed

lemma GameField_new_refused:
  assumes "\<not> (\<exists>k\<le>12. sz = 2 ^ k)"
  shows "\<exists>msg. GameField_new sz = Inl (InvalidSize msg)"
proof (cases "scan_size 0 sz")
  case (Pair m rest)
  show ?thesis
  proof (cases "m = 64 \<or> rest \<noteq> 0")
    case True
    with Pair show ?thesis by (auto simp add: GameField_new_def)
  next
    case False
    with Pair have "scan_size 0 sz = (m, 0)" "m \<noteq> 64" by simp_all
    from scan_size_found [OF this] obtain k where "sz = 2 ^ k" "m = k" by auto
    with assms have "12 < m" by (auto simp add: not_le)
    with Pair False show ?thesis by (simp add: GameField_new_def)
  qed
qed

lemma accepted_size:
  "(\<exists>k. unat (sz :: 64 word) = 2 ^ k) \<and> unat sz \<le> 4096 \<longleftrightarrow> (\<exists>k\<le>12. sz = 2 ^ k)"
proof
  assume "(\<exists>k. unat sz = 2 ^ k) \<and> unat sz \<le> 4096"
  then obtain k where k: "unat sz = 2 ^ k" "(2 :: nat) ^ k \<le> 2 ^ 12" by auto
  then have "k \<le> 12" by (simp only: power_increasing_iff)
  moreover have "sz = of_nat (unat sz)" by simp
  then have "sz = 2 ^ k" by (simp only: k) simp
  ultimately show "\<exists>k\<le>12. sz = 2 ^ k" by blast
next
  assume "\<exists>k\<le>12. sz = 2 ^ k"
  then obtain k where k: "k \<le> 12" "sz = 2 ^ k" by blast
  then have u: "unat sz = 2 ^ k" by (simp add: unat_pow2)
  from k(1) have "(2 :: nat) ^ k \<le> 2 ^ 12" by (intro power_increasing) simp_all
  with u show "(\<exists>k. unat sz = 2 ^ k) \<and> unat sz \<le> 4096" by auto
qed

lemma wf_grid_of:
  assumes "k \<le> 12" and "length cs = 2 ^ (2 * k)"
  shows "wf (grid_of k cs i)"
proof -
  from assms(1) have "k < 2 ^ 8" by simp
  then have "unat (of_nat k :: 8 word) = k"
    by (simp add: unat_of_nat take_bit_nat_eq_self)
  with assms show ?thesis by (simp add: wf_def grid_of_def)
qed

text \<open>
  C5. The constructor fails, with \<open>InvalidSize\<close>, exactly when the size \<open>N\<close> is not
  a power of two or is above 4096. For every other size it returns a well-formed grid
  of that size, with \<open>N \<times> N\<close> cells, all of them \<open>Dead\<close>. When \<^verbatim>\<open>openFile\<close> reads
  a declared size that differs from the grid's and that the constructor refuses, it
  returns the grid it was given: size, cursor and cells are as they were.
\<close>

theorem construction:
  "((\<exists>msg. GameField_new sz = Inl (InvalidSize msg))
      \<longleftrightarrow> \<not> (\<exists>k. unat sz = 2 ^ k) \<or> 4096 < unat sz)
   \<and> ((\<exists>k. unat sz = 2 ^ k) \<and> unat sz \<le> 4096 \<longrightarrow>
        (\<exists>g. GameField_new sz = Inr g \<and> wf g \<and> fsize g = sz \<and> idx g = 0
           \<and> length (cells g) = unat sz * unat sz
           \<and> (\<forall>i<unat sz * unat sz. cells g ! i = Dead)))
   \<and> (\<forall>first rest f.
        ucast first \<noteq> fsize f \<and> (\<not> (\<exists>k. unat first = 2 ^ k) \<or> 4096 < unat first)
        \<longrightarrow> openFile (first # rest) f = Inr f)"
proof (intro conjI allI impI)
  show "(\<exists>msg. GameField_new sz = Inl (InvalidSize msg))
      \<longleftrightarrow> \<not> (\<exists>k. unat sz = 2 ^ k) \<or> 4096 < unat sz"
  proof (cases "\<exists>k\<le>12. sz = 2 ^ k")
    case True
    then obtain k where k: "k \<le> 12" "sz = 2 ^ k" by blast
    then have "\<not> (\<exists>msg. GameField_new sz = Inl (InvalidSize msg))"
      by (simp add: GameField_new_pow2)
    moreover from True have "(\<exists>k. unat sz = 2 ^ k) \<and> unat sz \<le> 4096"
      using accepted_size [of sz] by blast
    ultimately show ?thesis by auto
  next
    case False
    then have "\<not> ((\<exists>k. unat sz = 2 ^ k) \<and> unat sz \<le> 4096)"
      using accepted_size [of sz] by blast
    with GameField_new_refused [OF False] show ?thesis by auto
  qed
next
  assume "(\<exists>k. unat sz = 2 ^ k) \<and> unat sz \<le> 4096"
  then have "\<exists>k\<le>12. sz = 2 ^ k" using accepted_size [of sz] by blast
  then obtain k where k: "k \<le> 12" "sz = 2 ^ k" by blast
  let ?g = "grid_of k (replicate (2 ^ (2 * k)) Dead) 0"
  from k have u: "unat sz = 2 ^ k" by (simp add: unat_pow2)
  have sq: "unat sz * unat sz = 2 ^ (2 * k)"
    by (simp add: u power2_eq_square [symmetric] power_mult [symmetric] mult.commute)
  have "GameField_new sz = Inr ?g"
    using k by (simp add: GameField_new_pow2)
  moreover have "wf ?g"
    using k(1) by (rule wf_grid_of) simp
  moreover have "fsize ?g = sz" "idx ?g = 0" "length (cells ?g) = unat sz * unat sz"
    "\<forall>i<unat sz * unat sz. cells ?g ! i = Dead"
    unfolding sq using k(2) by (simp_all add: grid_of_def)
  ultimately show "\<exists>g. GameField_new sz = Inr g \<and> wf g \<and> fsize g = sz \<and> idx g = 0
           \<and> length (cells g) = unat sz * unat sz
           \<and> (\<forall>i<unat sz * unat sz. cells g ! i = Dead)"
    by blast
next
  fix first :: "32 word" and rest and f :: GameField
  let ?sz = "ucast first :: 64 word"
  assume a: "ucast first \<noteq> fsize f
    \<and> (\<not> (\<exists>k. unat first = 2 ^ k) \<or> 4096 < unat first)"
  then have "\<not> ((\<exists>k. unat ?sz = 2 ^ k) \<and> unat ?sz \<le> 4096)"
    by auto
  then have "\<not> (\<exists>k\<le>12. ?sz = 2 ^ k)" using accepted_size [of ?sz] by blast
  from GameField_new_refused [OF this] obtain msg where
    "GameField_new ?sz = Inl (InvalidSize msg)" by blast
  with a show "openFile (first # rest) f = Inr f"
    by (simp add: openFile_def)
qed

theorem construction_witness:
  "(\<exists>msg. GameField_new 8192 = Inl (InvalidSize msg))
   \<and> (\<exists>g. GameField_new 2 = Inr g \<and> wf g \<and> fsize g = 2 \<and> length (cells g) = 4
        \<and> cells g ! 0 = Dead \<and> cells g ! 3 = Dead)
   \<and> openFile [8192, 0, 1] (grid_of 1 [Alive, Dead, Dead, Dead] 0)
       = Inr (grid_of 1 [Alive, Dead, Dead, Dead] 0)"
proof -
  have a: "\<exists>msg. GameField_new 8192 = Inl (InvalidSize msg)"
    using construction [of 8192, THEN conjunct1] by simp
  have "unat (2 :: 64 word) = 2 ^ 1" by simp
  then have "(\<exists>k. unat (2 :: 64 word) = 2 ^ k) \<and> unat (2 :: 64 word) \<le> 4096"
    by (intro conjI exI [of _ 1]) simp_all
  with construction [of 2, THEN conjunct2, THEN conjunct1]
  have b: "\<exists>g. GameField_new 2 = Inr g \<and> wf g \<and> fsize g = 2 \<and> length (cells g) = 4
        \<and> cells g ! 0 = Dead \<and> cells g ! 3 = Dead"
    by auto
  have "ucast (8192 :: 32 word) \<noteq> fsize (grid_of 1 [Alive, Dead, Dead, Dead] 0)
    \<and> (\<not> (\<exists>k. unat (8192 :: 32 word) = 2 ^ k) \<or> 4096 < unat (8192 :: 32 word))"
    by (simp add: grid_of_def)
  with construction [of 0, THEN conjunct2, THEN conjunct2, rule_format,
      of 8192 "grid_of 1 [Alive, Dead, Dead, Dead] 0" "[0, 1]"]
  have c: "openFile [8192, 0, 1] (grid_of 1 [Alive, Dead, Dead, Dead] 0)
       = Inr (grid_of 1 [Alive, Dead, Dead, Dead] 0)"
    by blast
  from a b c show ?thesis by blast
qed

section \<open>Snapshots\<close>

lemma wf_area:
  assumes "wf f"
  shows "unat (fsize f * fsize f) = length (cells f)"
    and "unat (ucast (fsize f * fsize f) :: 32 word) = length (cells f)"
    and "(ucast (ucast (fsize f) :: 32 word) :: 64 word) = fsize f"
proof -
  let ?n = "unat (n_bits f)"
  from assms have n: "?n \<le> 12" and fs: "fsize f = 2 ^ ?n"
    and len: "length (cells f) = 2 ^ (2 * ?n)"
    by (simp_all add: wf_def)
  have sq: "fsize f * fsize f = 2 ^ (2 * ?n)"
    by (simp add: fs power2_eq_square [symmetric] power_mult [symmetric] mult.commute)
  show "unat (fsize f * fsize f) = length (cells f)"
    using n by (simp add: sq len unat_pow2)
  show "unat (ucast (fsize f * fsize f) :: 32 word) = length (cells f)"
    using n by (simp add: sq len ucast_pow2 unat_pow2)
  show "(ucast (ucast (fsize f) :: 32 word) :: 64 word) = fsize f"
    using n by (simp add: fs ucast_pow2)
qed

lemma for_each_single: "for_each [x] body = body x"
proof
  fix s
  show "for_each [x] body s = body x s"
    by (cases "body x s") simp_all
qed

lemma blank_prefix:
  assumes "m < length cs"
  shows "(replicate m a @ drop m cs)[m := a] = replicate (Suc m) a @ drop (Suc m) cs"
proof -
  from assms have "drop m cs = cs ! m # drop (Suc m) cs"
    by (simp add: Cons_nth_drop_Suc)
  then show ?thesis
    by (simp add: list_update_append replicate_append_same)
qed

lemma clear_prefix:
  assumes "m \<le> length (cells g)" and "length (cells g) \<le> 2 ^ 24"
  shows "for_each [0..<m] (\<lambda>i. set_cell (of_nat i) Dead) g
    = Inr (g\<lparr>cells := replicate m Dead @ drop m (cells g)\<rparr>)"
  using assms
proof (induction m)
  case 0
  show ?case by simp
next
  case (Suc m)
  from Suc.prems have m: "m < length (cells g)" "m < 2 ^ 24" by simp_all
  then have u: "unat (of_nat m :: 64 word) = m" by (simp add: unat_of_nat_64)
  from Suc have ih: "for_each [0..<m] (\<lambda>i. set_cell (of_nat i) Dead) g
    = Inr (g\<lparr>cells := replicate m Dead @ drop m (cells g)\<rparr>)" by simp
  have "for_each [0..<Suc m] (\<lambda>i. set_cell (of_nat i) Dead) g
    = seq (for_each [0..<m] (\<lambda>i. set_cell (of_nat i) Dead) g) (set_cell (of_nat m) Dead)"
    by (simp add: for_each_append for_each_single)
  also have "\<dots> = set_cell (of_nat m) Dead (g\<lparr>cells := replicate m Dead @ drop m (cells g)\<rparr>)"
    by (simp only: ih seq_Inr)
  also have "\<dots> = Inr (g\<lparr>cells := replicate (Suc m) Dead @ drop (Suc m) (cells g)\<rparr>)"
    using m(1) by (simp add: set_cell_def u blank_prefix del: replicate_Suc)
  finally show ?case .
qed

lemma clear_eq:
  assumes "wf g"
  shows "clear g = Inr (g\<lparr>cells := replicate (length (cells g)) Dead\<rparr>)"
  using clear_prefix [of "length (cells g)" g] wf_length_le [OF assms]
  by (simp add: clear_def Let_def wf_area(1) [OF assms])

lemma setAlive_cells:
  assumes "unat mx = length (cells h)"
  shows "\<exists>h'. for_each idxs
           (\<lambda>i g. let k = (ucast (i :: 32 word) :: 64 word)
                  in if k < mx then set_cell k Alive g else Inr g) h = Inr h'
      \<and> h' = h\<lparr>cells := cells h'\<rparr> \<and> length (cells h') = length (cells h)
      \<and> (\<forall>j<length (cells h). cells h' ! j
            = (if j \<in> unat ` set idxs then Alive else cells h ! j))"
  using assms
proof (induction idxs arbitrary: h)
  case Nil
  show ?case by simp
next
  case (Cons i idxs)
  let ?body = "\<lambda>i g. let k = (ucast (i :: 32 word) :: 64 word)
                  in if k < mx then set_cell k Alive g else Inr g"
  let ?h1 = "if unat i < length (cells h) then h\<lparr>cells := (cells h)[unat i := Alive]\<rparr> else h"
  have b: "?body i h = Inr ?h1"
    using Cons.prems by (simp add: Let_def word_less_nat_alt set_cell_def)
  have "unat mx = length (cells ?h1)" using Cons.prems by simp
  from Cons.IH [OF this] obtain h' where h': "for_each idxs ?body ?h1 = Inr h'"
    "h' = ?h1\<lparr>cells := cells h'\<rparr>" "length (cells h') = length (cells ?h1)"
    "\<forall>j<length (cells ?h1). cells h' ! j
       = (if j \<in> unat ` set idxs then Alive else cells ?h1 ! j)"
    by blast
  have "for_each (i # idxs) ?body h = Inr h'"
    using b h'(1) by simp
  moreover have "h' = h\<lparr>cells := cells h'\<rparr>"
    using h'(2) by (cases "unat i < length (cells h)") simp_all
  moreover have "length (cells h') = length (cells h)"
    using h'(3) by simp
  moreover have "\<forall>j<length (cells h). cells h' ! j
            = (if j \<in> unat ` set (i # idxs) then Alive else cells h ! j)"
    using h'(4) by (auto simp add: nth_list_update)
  ultimately show ?case by blast
qed

lemma save_prefix:
  assumes "m \<le> length (cells f)" and "length (cells f) \<le> 2 ^ 24"
  shows "for_each [0..<m]
           (\<lambda>i vec. seq (cell_at (of_nat i) f)
              (\<lambda>c. Inr (if c = Alive then vec @ [of_nat i] else vec))) (v :: 32 word list)
    = Inr (v @ map of_nat (filter (\<lambda>i. cells f ! i = Alive) [0..<m]))"
  using assms
proof (induction m)
  case 0
  show ?case by simp
next
  case (Suc m)
  from Suc.prems have m: "m < length (cells f)" "m < 2 ^ 24" by simp_all
  then have u: "unat (of_nat m :: 64 word) = m" by (simp add: unat_of_nat_64)
  let ?body = "\<lambda>i vec. seq (cell_at (of_nat i) f)
              (\<lambda>c. Inr (if c = Alive then vec @ [of_nat i :: 32 word] else vec))"
  from Suc have ih: "for_each [0..<m] ?body v
    = Inr (v @ map of_nat (filter (\<lambda>i. cells f ! i = Alive) [0..<m]))" by simp
  have "for_each [0..<Suc m] ?body v = seq (for_each [0..<m] ?body v) (?body m)"
    by (simp add: for_each_append for_each_single)
  also have "\<dots> = ?body m (v @ map of_nat (filter (\<lambda>i. cells f ! i = Alive) [0..<m]))"
    by (simp only: ih seq_Inr)
  also have "\<dots> = Inr (v @ map of_nat (filter (\<lambda>i. cells f ! i = Alive) [0..<Suc m]))"
    using m(1) by (simp add: cell_at_def u)
  finally show ?case .
qed

lemma saveFile_eq:
  assumes "wf f"
  shows "saveFile f
    = Inr (ucast (fsize f)
        # map of_nat (filter (\<lambda>i. cells f ! i = Alive) [0..<length (cells f)]))"
  using save_prefix [of "length (cells f)" f "[ucast (fsize f)]"] wf_length_le [OF assms]
  by (simp add: saveFile_def Let_def wf_area(2) [OF assms])

lemma saved_index:
  assumes "n \<le> 2 ^ 24" and "unat (k :: 32 word) < n"
  shows "k \<in> set (map of_nat (filter P [0..<n])) \<longleftrightarrow> P (unat k)"
proof
  assume "k \<in> set (map of_nat (filter P [0..<n]))"
  then obtain i where i: "i < n" "P i" "k = of_nat i" by auto
  with assms(1) have "unat k = i" by (simp add: unat_of_nat_32)
  with i show "P (unat k)" by simp
next
  assume "P (unat k)"
  with assms(2) have "unat k \<in> set (filter P [0..<n])" by simp
  then have "of_nat (unat k) \<in> set (map of_nat (filter P [0..<n]) :: 32 word list)"
    unfolding set_map by (rule imageI)
  then show "k \<in> set (map of_nat (filter P [0..<n]))" by simp
qed

lemma saved_positions:
  assumes "n \<le> 2 ^ 24" and "j < n"
  shows "j \<in> unat ` set (map of_nat (filter P [0..<n]) :: 32 word list) \<longleftrightarrow> P j"
proof -
  from assms have u: "unat (of_nat j :: 32 word) = j" by (simp add: unat_of_nat_32)
  show ?thesis
  proof
    assume "j \<in> unat ` set (map of_nat (filter P [0..<n]) :: 32 word list)"
    then obtain k :: "32 word" where k: "k \<in> set (map of_nat (filter P [0..<n]))" "j = unat k"
      by blast
    with saved_index [OF assms(1), of k P] assms(2) show "P j" by simp
  next
    assume "P j"
    with saved_index [OF assms(1), of "of_nat j" P] assms(2) u
    have "(of_nat j :: 32 word) \<in> set (map of_nat (filter P [0..<n]))" by simp
    then have "unat (of_nat j :: 32 word) \<in> unat ` set (map of_nat (filter P [0..<n]) :: 32 word list)"
      by (rule imageI)
    with u show "j \<in> unat ` set (map of_nat (filter P [0..<n]) :: 32 word list)" by simp
  qed
qed

lemma load_saved:
  assumes wf: "wf f" and st: "settled f" and wh: "wf h" and sz: "fsize h = fsize f"
  shows "seq (clear h)
      (setAlive (map of_nat (filter (\<lambda>i. cells f ! i = Alive) [0..<length (cells f)])))
    = Inr (h\<lparr>cells := cells f\<rparr>)"
proof -
  let ?rest = "map of_nat (filter (\<lambda>i. cells f ! i = Alive) [0..<length (cells f)])
    :: 32 word list"
  let ?h0 = "h\<lparr>cells := replicate (length (cells h)) Dead\<rparr>"
  have len: "length (cells h) = length (cells f)"
    using wf_area(1) [OF wf] wf_area(1) [OF wh] sz by simp
  have "unat (fsize ?h0 * fsize ?h0) = length (cells ?h0)"
    using wf_area(1) [OF wh] by simp
  from setAlive_cells [OF this, of ?rest] obtain h' where h':
    "setAlive ?rest ?h0 = Inr h'" "h' = ?h0\<lparr>cells := cells h'\<rparr>"
    "length (cells h') = length (cells ?h0)"
    "\<forall>j<length (cells ?h0). cells h' ! j
       = (if j \<in> unat ` set ?rest then Alive else cells ?h0 ! j)"
    unfolding setAlive_def Let_def by blast
  have "cells h' = cells f"
  proof (rule nth_equalityI)
    show "length (cells h') = length (cells f)" using h'(3) len by simp
  next
    fix j
    assume "j < length (cells h')"
    with h'(3) len have j: "j < length (cells f)" "j < length (cells ?h0)" by simp_all
    from st j(1) have c: "cells f ! j = Dead \<or> cells f ! j = Alive"
      by (simp add: settled_def list_all_length)
    have "j \<in> unat ` set ?rest \<longleftrightarrow> cells f ! j = Alive"
      using saved_positions [OF wf_length_le [OF wf] j(1), of "\<lambda>i. cells f ! i = Alive"] .
    with h'(4) j c show "cells h' ! j = cells f ! j"
      using len by auto
  qed
  with h'(2) have "h' = h\<lparr>cells := cells f\<rparr>" by simp
  with h'(1) show ?thesis
    by (simp add: clear_eq [OF wh])
qed

lemma alive_saved:
  assumes w: "wf f"
  shows "alive_at f x y \<longleftrightarrow>
    0 \<le> x \<and> x < side f \<and> 0 \<le> y \<and> y < side f
    \<and> interleaveXY (word_of_int x) (word_of_int y)
        \<in> set (map of_nat (filter (\<lambda>i. cells f ! i = Alive) [0..<length (cells f)]))"
proof (cases "0 \<le> x \<and> x < side f \<and> 0 \<le> y \<and> y < side f")
  case False
  then show ?thesis by (auto simp add: alive_at_def)
next
  case True
  let ?k = "interleaveXY (word_of_int x) (word_of_int y)"
  from True have "on_board f (word_of_int x) (word_of_int y)"
    using coordinate_on_board [OF w, of x] coordinate_on_board [OF w, of y]
    by (simp add: on_board_def)
  then have "\<not> off_grid f ?k"
    by (simp add: off_grid_interleaveXY [OF w])
  then have "unat ?k < length (cells f)"
    using on_grid_iff_unat [OF w, of ?k] by blast
  from saved_index [OF wf_length_le [OF w] this, of "\<lambda>i. cells f ! i = Alive"] True
  show ?thesis by (simp add: alive_at_def)
qed

text \<open>
  C9. For a well-formed grid whose cells are all \<open>Dead\<close> or \<open>Alive\<close>,
  \<^verbatim>\<open>saveFile\<close> writes the grid size followed by the array indices of the \<open>Alive\<close>
  cells in increasing order, which are the Morton codes of the \<open>Alive\<close> coordinates.
  \<^verbatim>\<open>openFile\<close> on that sequence, in a grid of the same size, leaves that grid with
  the cells of the saved one: the same coordinates are \<open>Alive\<close> and every other cell
  is \<open>Dead\<close>. In a grid of another size it builds a grid of the saved size, with the
  same outcome.
\<close>

theorem snapshot_round_trip:
  assumes "wf f" and "settled f"
  shows "\<exists>vec. saveFile f = Inr vec
    \<and> vec = ucast (fsize f)
        # map of_nat (filter (\<lambda>i. cells f ! i = Alive) [0..<length (cells f)])
    \<and> (\<forall>x y. alive_at f x y \<longleftrightarrow>
          0 \<le> x \<and> x < side f \<and> 0 \<le> y \<and> y < side f
          \<and> interleaveXY (word_of_int x) (word_of_int y) \<in> set (tl vec))
    \<and> (\<forall>g. wf g \<and> fsize g = fsize f \<longrightarrow>
          openFile vec g = Inr (g\<lparr>cells := cells f\<rparr>)
          \<and> settled (g\<lparr>cells := cells f\<rparr>)
          \<and> (\<forall>x y. alive_at (g\<lparr>cells := cells f\<rparr>) x y \<longleftrightarrow> alive_at f x y))
    \<and> (\<forall>g. fsize g \<noteq> fsize f \<longrightarrow>
          (\<exists>g'. openFile vec g = Inr g' \<and> wf g' \<and> fsize g' = fsize f
             \<and> cells g' = cells f))"
proof -
  let ?rest = "map of_nat (filter (\<lambda>i. cells f ! i = Alive) [0..<length (cells f)])
    :: 32 word list"
  let ?vec = "ucast (fsize f) # ?rest"
  note w = assms(1) and st = assms(2)
  have a: "saveFile f = Inr ?vec" by (rule saveFile_eq [OF w])
  have b: "\<forall>x y. alive_at f x y \<longleftrightarrow>
          0 \<le> x \<and> x < side f \<and> 0 \<le> y \<and> y < side f
          \<and> interleaveXY (word_of_int x) (word_of_int y) \<in> set (tl ?vec)"
    using alive_saved [OF w] by simp
  have c: "\<forall>g. wf g \<and> fsize g = fsize f \<longrightarrow>
          openFile ?vec g = Inr (g\<lparr>cells := cells f\<rparr>)
          \<and> settled (g\<lparr>cells := cells f\<rparr>)
          \<and> (\<forall>x y. alive_at (g\<lparr>cells := cells f\<rparr>) x y \<longleftrightarrow> alive_at f x y)"
  proof (intro allI impI)
    fix g :: GameField
    assume g: "wf g \<and> fsize g = fsize f"
    then have "openFile ?vec g = Inr (g\<lparr>cells := cells f\<rparr>)"
      using load_saved [OF w st, of g]
      by (simp add: openFile_def wf_area(3) [OF w])
    moreover have "settled (g\<lparr>cells := cells f\<rparr>)"
      using st by (simp add: settled_def)
    moreover have "\<forall>x y. alive_at (g\<lparr>cells := cells f\<rparr>) x y \<longleftrightarrow> alive_at f x y"
      using g by (simp add: alive_at_def side_def)
    ultimately show "openFile ?vec g = Inr (g\<lparr>cells := cells f\<rparr>)
          \<and> settled (g\<lparr>cells := cells f\<rparr>)
          \<and> (\<forall>x y. alive_at (g\<lparr>cells := cells f\<rparr>) x y \<longleftrightarrow> alive_at f x y)"
      by blast
  qed
  have d: "\<forall>g. fsize g \<noteq> fsize f \<longrightarrow>
          (\<exists>g'. openFile ?vec g = Inr g' \<and> wf g' \<and> fsize g' = fsize f
             \<and> cells g' = cells f)"
  proof (intro allI impI)
    fix g :: GameField
    assume g: "fsize g \<noteq> fsize f"
    let ?n = "unat (n_bits f)"
    let ?h = "grid_of ?n (replicate (2 ^ (2 * ?n)) Dead) 0"
    from w have n: "?n \<le> 12" and fs: "fsize f = 2 ^ ?n"
      and len: "length (cells f) = 2 ^ (2 * ?n)"
      by (simp_all add: wf_def)
    have new: "GameField_new (fsize f) = Inr ?h"
      unfolding fs by (rule GameField_new_pow2 [OF n])
    have wh: "wf ?h" using n by (rule wf_grid_of) simp
    have sh: "fsize ?h = fsize f" by (simp add: grid_of_def fs)
    have "openFile ?vec g = Inr (?h\<lparr>cells := cells f\<rparr>)"
      using g load_saved [OF w st wh sh]
      by (simp add: openFile_def wf_area(3) [OF w] new)
    moreover have "wf (?h\<lparr>cells := cells f\<rparr>)"
      using wh len by (simp add: wf_def grid_of_def)
    moreover have "fsize (?h\<lparr>cells := cells f\<rparr>) = fsize f" using sh by simp
    ultimately show "\<exists>g'. openFile ?vec g = Inr g' \<and> wf g' \<and> fsize g' = fsize f
             \<and> cells g' = cells f"
      by (intro exI [of _ "?h\<lparr>cells := cells f\<rparr>"]) simp
  qed
  from a b c d show ?thesis by blast
qed

theorem snapshot_round_trip_witness:
  "saveFile (grid_of 1 [Alive, Dead, Dead, Alive] 0) = Inr [2, 0, 3]
   \<and> openFile [2, 0, 3] (grid_of 1 [Dead, Alive, Alive, Dead] 2)
       = Inr ((grid_of 1 [Dead, Alive, Alive, Dead] 2)\<lparr>cells := [Alive, Dead, Dead, Alive]\<rparr>)
   \<and> (\<exists>g'. openFile [2, 0, 3] (grid_of 0 [Alive] 0) = Inr g'
        \<and> cells g' = [Alive, Dead, Dead, Alive])"
proof -
  let ?f = "grid_of 1 [Alive, Dead, Dead, Alive] 0"
  let ?g = "grid_of 1 [Dead, Alive, Alive, Dead] 2"
  have w: "wf ?f" by (simp add: wf_def grid_of_def)
  have s: "settled ?f" by (simp add: settled_def grid_of_def)
  have wg: "wf ?g \<and> fsize ?g = fsize ?f" by (simp add: wf_def grid_of_def)
  have other: "fsize (grid_of 0 [Alive] 0) \<noteq> fsize ?f" by (simp add: grid_of_def)
  have v: "ucast (fsize ?f)
      # map of_nat (filter (\<lambda>i. cells ?f ! i = Alive) [0..<length (cells ?f)])
    = ([2, 0, 3] :: 32 word list)"
    by code_simp
  have cf: "cells ?f = [Alive, Dead, Dead, Alive]" by (simp add: grid_of_def)
  from snapshot_round_trip [OF w s] obtain vec where vec: "saveFile ?f = Inr vec"
    "vec = ucast (fsize ?f)
        # map of_nat (filter (\<lambda>i. cells ?f ! i = Alive) [0..<length (cells ?f)])"
    "\<forall>g. wf g \<and> fsize g = fsize ?f \<longrightarrow>
          openFile vec g = Inr (g\<lparr>cells := cells ?f\<rparr>)
          \<and> settled (g\<lparr>cells := cells ?f\<rparr>)
          \<and> (\<forall>x y. alive_at (g\<lparr>cells := cells ?f\<rparr>) x y \<longleftrightarrow> alive_at ?f x y)"
    "\<forall>g. fsize g \<noteq> fsize ?f \<longrightarrow>
          (\<exists>g'. openFile vec g = Inr g' \<and> wf g' \<and> fsize g' = fsize ?f
             \<and> cells g' = cells ?f)"
    by blast
  from vec(2) v have e: "vec = [2, 0, 3]" by simp
  from vec(3) wg have "openFile vec ?g = Inr (?g\<lparr>cells := cells ?f\<rparr>)" by blast
  moreover from vec(4) other
  have "\<exists>g'. openFile vec (grid_of 0 [Alive] 0) = Inr g' \<and> cells g' = cells ?f"
    by blast
  ultimately show ?thesis
    using vec(1) unfolding e cf by blast
qed

end
